theory Spec2Isabelle
  imports Complex_Main "HOL-Library.Multiset"
begin

section \<open>Data model\<close>

text \<open>
  The orchestration core of xsgen: the burnup-criticality plugin (\<^verbatim>\<open>buk.py\<close>), the
  OpenMC+ORIGEN engine (\<^verbatim>\<open>openmc_origen.py\<close>) and the transmutation-matrix loop of
  the Bright-lite writer (\<^verbatim>\<open>brightlite.py\<close>).

  The parameters of a State are rationals, compared and subtracted exactly; the float
  \<^verbatim>\<open>nan\<close> (which differs from itself) is outside the model. The arithmetic that
  numpy performs on flux arrays is a parameter of the engine.
\<close>

datatype error =
    ValueError | TypeError | KeyError | IndexError | AttributeError
  | CalledProcessError | IOError

text \<open>
  A State is a namedtuple: an ordered tuple of values, each with its field name, so
  \<^verbatim>\<open>len(state)\<close> is the length of the list, \<^verbatim>\<open>state._fields[i]\<close> the first and
  \<^verbatim>\<open>state[i]\<close> the second component of entry \<open>i\<close>.
\<close>

type_synonym state = "(string \<times> rat) list"

type_synonym run = "state list"

section \<open>Run grouping (\<^verbatim>\<open>XSGenPlugin\<close>)\<close>

text \<open>The loop \<^verbatim>\<open>for index in range(len(state1))\<close> of \<^verbatim>\<open>same_except_burnup_time\<close>.\<close>

fun same_loop :: "state \<Rightarrow> state \<Rightarrow> nat list \<Rightarrow> bool" where
  "same_loop state1 state2 [] = True"
| "same_loop state1 state2 (index # rest) =
     (if fst (state1 ! index) = ''burn_times'' then same_loop state1 state2 rest
      else if snd (state1 ! index) \<noteq> snd (state2 ! index) then False
      else same_loop state1 state2 rest)"

definition same_except_burnup_time :: "state \<Rightarrow> state \<Rightarrow> error + bool" where
  "same_except_burnup_time state1 state2 =
     (if length state1 \<noteq> length state2 then Inl ValueError
      else Inr (same_loop state1 state2 [0..<length state1]))"

text \<open>
  The inner loop \<^verbatim>\<open>for run in runs\<close> of \<^verbatim>\<open>execute\<close>: it has no \<^verbatim>\<open>break\<close>, so the
  state is appended to every run whose first member matches; the flag
  \<^verbatim>\<open>already_existed\<close> is threaded through.
\<close>

fun scan_runs :: "state \<Rightarrow> run list \<Rightarrow> bool \<Rightarrow> error + (run list \<times> bool)" where
  "scan_runs st [] already_existed = Inr ([], already_existed)"
| "scan_runs st (rn # rest) already_existed =
     (case rn of
        [] \<Rightarrow> Inl IndexError
      | r0 # _ \<Rightarrow>
          (case same_except_burnup_time r0 st of
             Inl e \<Rightarrow> Inl e
           | Inr True \<Rightarrow>
               (case scan_runs st rest True of
                  Inl e \<Rightarrow> Inl e
                | Inr (rest', ae) \<Rightarrow> Inr ((rn @ [st]) # rest', ae))
           | Inr False \<Rightarrow>
               (case scan_runs st rest already_existed of
                  Inl e \<Rightarrow> Inl e
                | Inr (rest', ae) \<Rightarrow> Inr (rn # rest', ae))))"

text \<open>The outer loop \<^verbatim>\<open>for state in rc.states\<close>, started with \<^verbatim>\<open>runs = []\<close>.\<close>

fun group_loop :: "state list \<Rightarrow> run list \<Rightarrow> error + run list" where
  "group_loop [] runs = Inr runs"
| "group_loop (st # sts) runs =
     (case scan_runs st runs False of
        Inl e \<Rightarrow> Inl e
      | Inr (runs', already_existed) \<Rightarrow>
          group_loop sts (if already_existed then runs' else runs' @ [[st]]))"

definition group_states :: "state list \<Rightarrow> error + run list" where
  "group_states states = group_loop states []"

text \<open>
  The words of the specification: two States are identical on every parameter except
  the burnup-time axis when their sub-tuples of the other parameters are equal.
\<close>

definition non_time :: "state \<Rightarrow> state" where
  "non_time s = filter (\<lambda>p. fst p \<noteq> ''burn_times'') s"

section \<open>The OpenMC+ORIGEN engine (\<^verbatim>\<open>OpenMCOrigen\<close>)\<close>

subsection \<open>Values\<close>

text \<open>
  A material is used through its composition \<^verbatim>\<open>comp\<close> only: nuclide identifier and
  fraction, in the iteration order of the composition, with \<^verbatim>\<open>comp[nuc]\<close> raising
  \<^verbatim>\<open>KeyError\<close> for a nuclide it does not hold.
\<close>

type_synonym material = "(int \<times> rat) list"

text \<open>
  A numpy \<^verbatim>\<open>float64\<close>: a finite value, which is a rational number, or one of the
  \<^verbatim>\<open>nan\<close>/\<^verbatim>\<open>inf\<close> values that numpy returns (with a warning, not an exception), for
  example when a divisor is zero.
\<close>

datatype npfloat = Fin rat | NonFinite

type_synonym flux = "npfloat list"

text \<open>The result array of a tally has three axes: filter bin, score, and (sum, sum of squares).\<close>

type_synonym tally = "rat list list list"

record statepoint =
  k_combined :: "rat \<times> rat"
  tallies :: "tally list"

type_synonym xstab = "(int \<times> int \<times> rat list) list"

text \<open>
  What \<^verbatim>\<open>generate\<close> returns: the 4-tuple \<^verbatim>\<open>(k, phi_g, xs, fuel_material)\<close> after a
  solve, or the stored 3-tuple \<^verbatim>\<open>(k, phi_g, xs)\<close> on a cache hit.
\<close>

datatype genresult =
    Triple rat flux xstab
  | Quad rat flux xstab material

datatype datasource = CinderDS | EafDS | OmcDS

text \<open>
  The file system as the engine observes it: \<^verbatim>\<open>os.listdir\<close> of the directories that
  exist, and what \<^verbatim>\<open>StatePoint(path).read_results()\<close> yields for the paths that hold
  a readable statepoint.
\<close>

record filesys =
  listdir :: "string \<rightharpoonup> string list"
  spfile :: "string \<rightharpoonup> statepoint"

text \<open>The effects on the outside world, in the order in which they happen.\<close>

datatype event =
    OmcInput string material
  | OmcRun string
  | OrigenInput string material rat npfloat
  | OrigenRun string string

record engine =
  statelibs :: "state \<rightharpoonup> (rat \<times> flux \<times> xstab)"
  fuel_material :: material
  src_phi_g :: "datasource \<Rightarrow> flux"
  disk :: filesys
  trace :: "event list"

text \<open>
  The run control's settings and the collaborators that are not part of the
  orchestration: Python's \<^verbatim>\<open>hash\<close>, the two external executables, the cross-section
  cache, pyne's \<^verbatim>\<open>nucname.name\<close>, and numpy's arithmetic on \<^verbatim>\<open>float64\<close> arrays
  (\<^verbatim>\<open>a.sum()\<close> and the division of an entry by a scalar). The OpenMC process sees the state's context and the
  fuel material written to its input, and may change the file system in any way; the
  ORIGEN process sees the material of TAPE4 and the irradiation of TAPE5 and yields the
  materials of \<^verbatim>\<open>TAPE6.OUT\<close>.
\<close>

record ext =
  builddir :: string
  hash_state :: "state \<Rightarrow> string"
  openmc_exe :: "string \<Rightarrow> state \<Rightarrow> material \<Rightarrow> filesys \<Rightarrow> bool \<times> filesys"
  origen_call :: "string option"
  is_thermal :: bool
  origen_exe :: "string \<Rightarrow> state \<Rightarrow> material \<Rightarrow> rat \<Rightarrow> npfloat \<Rightarrow> error + material list"
  track_nucs :: "int list"
  reactions :: "int list"
  xscache :: "(datasource \<Rightarrow> flux) \<Rightarrow> flux \<Rightarrow> int \<Rightarrow> int \<Rightarrow> rat list"
  nucname :: "int \<Rightarrow> string"
  np_sum :: "npfloat list \<Rightarrow> npfloat"
  np_divide :: "npfloat \<Rightarrow> npfloat \<Rightarrow> npfloat"

subsection \<open>Paths\<close>

definition startswith :: "string \<Rightarrow> string \<Rightarrow> bool" where
  "startswith f p = (take (length p) f = p)"

definition endswith :: "string \<Rightarrow> string \<Rightarrow> bool" where
  "endswith f p = (length p \<le> length f \<and> drop (length f - length p) f = p)"

text \<open>\<^verbatim>\<open>os.path.join\<close> of two components on a POSIX system.\<close>

definition path_join :: "string \<Rightarrow> string \<Rightarrow> string" where
  "path_join a b =
     (if startswith b ''/'' then b
      else if a = [] \<or> endswith a ''/'' then a @ b
      else a @ ''/'' @ b)"

definition pwd :: "ext \<Rightarrow> state \<Rightarrow> string \<Rightarrow> string" where
  "pwd X st directory = path_join (path_join (builddir X) (hash_state X st)) directory"

subsection \<open>The transport stage\<close>

text \<open>\<^verbatim>\<open>if not os.path.isdir(pwd): os.makedirs(pwd)\<close>\<close>

definition makedirs :: "string \<Rightarrow> engine \<Rightarrow> engine" where
  "makedirs d e =
     (case listdir (disk e) d of
        None \<Rightarrow> e\<lparr>disk := (disk e)\<lparr>listdir := (listdir (disk e))(d \<mapsto> [])\<rparr>\<rparr>
      | Some _ \<Rightarrow> e)"

text \<open>
  \<^verbatim>\<open>open(os.path.join(pwd, name), 'w')\<close> creates the file when it is not there. It is
  only called for a directory that \<^verbatim>\<open>makedirs\<close> has ensured.
\<close>

definition touch :: "string \<Rightarrow> string \<Rightarrow> filesys \<Rightarrow> filesys" where
  "touch d name fs =
     (case listdir fs d of
        None \<Rightarrow> fs
      | Some names \<Rightarrow>
          if name \<in> set names then fs
          else fs\<lparr>listdir := (listdir fs)(d \<mapsto> names @ [name])\<rparr>)"

text \<open>
  \<^verbatim>\<open>_make_omc_input\<close> writes the five input files; the fuel composition of
  \<^verbatim>\<open>materials.xml\<close> is rendered from \<^verbatim>\<open>rc.fuel_material\<close> as it is at that moment.
  The rendering of the templates is not modelled; the event records the material used.
\<close>

definition make_omc_input :: "ext \<Rightarrow> state \<Rightarrow> engine \<Rightarrow> engine" where
  "make_omc_input X st e =
     (let d = pwd X st ''omc'' in
      e\<lparr>disk := fold (touch d)
                 [''settings.xml'', ''materials.xml'', ''geometry.xml'',
                  ''tallies.xml'', ''plots.xml''] (disk e),
        trace := trace e @ [OmcInput d (fuel_material e)]\<rparr>)"

text \<open>The loop of \<^verbatim>\<open>_find_statepoint\<close> over the names of \<^verbatim>\<open>os.listdir(pwd)\<close>.\<close>

fun first_statepoint :: "string \<Rightarrow> string list \<Rightarrow> string option" where
  "first_statepoint d [] = None"
| "first_statepoint d (f # fs) =
     (if startswith f ''statepoint'' then Some (path_join d f)
      else first_statepoint d fs)"

definition find_statepoint :: "string \<Rightarrow> filesys \<Rightarrow> error + string option" where
  "find_statepoint d fs =
     (case listdir fs d of
        None \<Rightarrow> Inl IOError
      | Some names \<Rightarrow> Inr (first_statepoint d names))"

text \<open>\<^verbatim>\<open>results[::-1, :, 0].flatten()\<close>\<close>

definition slice_flat :: "tally \<Rightarrow> error + rat list" where
  "slice_flat results =
     (if \<exists>row \<in> set results. \<exists>cell \<in> set row. cell = [] then Inl IndexError
      else Inr (concat (map (map hd) (rev results))))"

text \<open>\<^verbatim>\<open>phi_g /= phi_g.sum()\<close>\<close>

definition normalise :: "ext \<Rightarrow> rat list \<Rightarrow> flux" where
  "normalise X v =
     (let total = np_sum X (map Fin v) in
      map (\<lambda>x. np_divide X (Fin x) total) v)"

text \<open>The loop over \<^verbatim>\<open>zip(sp.tallies[1:4], (self.cinderds, self.eafds, self.omcds))\<close>.\<close>

fun ds_loop ::
  "ext \<Rightarrow> (tally \<times> datasource) list \<Rightarrow> engine \<Rightarrow> (error + unit) \<times> engine" where
  "ds_loop X [] e = (Inr (), e)"
| "ds_loop X ((t, ds) # rest) e =
     (case slice_flat t of
        Inl err \<Rightarrow> (Inl err, e)
      | Inr v \<Rightarrow> ds_loop X rest (e\<lparr>src_phi_g := (src_phi_g e)(ds := normalise X v)\<rparr>))"

definition parse_statepoint ::
  "ext \<Rightarrow> string option \<Rightarrow> engine \<Rightarrow> (error + rat \<times> flux) \<times> engine" where
  "parse_statepoint X path e =
     (case path of
        None \<Rightarrow> (Inl TypeError, e)
      | Some p \<Rightarrow>
          (case spfile (disk e) p of
             None \<Rightarrow> (Inl IOError, e)
           | Some sp \<Rightarrow>
               (case ds_loop X (zip (take 3 (drop 1 (tallies sp))) [CinderDS, EafDS, OmcDS]) e of
                  (Inl err, e1) \<Rightarrow> (Inl err, e1)
                | (Inr _, e1) \<Rightarrow>
                    (case tallies sp of
                       [] \<Rightarrow> (Inl IndexError, e1)
                     | t_flux # _ \<Rightarrow>
                         (case slice_flat t_flux of
                            Inl err \<Rightarrow> (Inl err, e1)
                          | Inr v \<Rightarrow> (Inr (fst (k_combined sp), normalise X v), e1))))))"

definition generate_xs :: "ext \<Rightarrow> flux \<Rightarrow> engine \<Rightarrow> xstab" where
  "generate_xs X phi_g e =
     concat (map (\<lambda>nuc. map (\<lambda>rx. (nuc, rx, xscache X (src_phi_g e) phi_g nuc rx))
                          (reactions X))
                 (track_nucs X))"

definition parse_and_prepare ::
  "ext \<Rightarrow> string option \<Rightarrow> engine \<Rightarrow> (error + rat \<times> flux \<times> xstab) \<times> engine" where
  "parse_and_prepare X path e =
     (case parse_statepoint X path e of
        (Inl err, e1) \<Rightarrow> (Inl err, e1)
      | (Inr (k, phi_g), e1) \<Rightarrow> (Inr (k, phi_g, generate_xs X phi_g e1), e1))"

definition openmc :: "ext \<Rightarrow> state \<Rightarrow> engine \<Rightarrow> (error + rat \<times> flux \<times> xstab) \<times> engine" where
  "openmc X st e =
     (let d = pwd X st ''omc'';
          e1 = make_omc_input X st (makedirs d e)
      in case find_statepoint d (disk e1) of
           Inl err \<Rightarrow> (Inl err, e1)
         | Inr (Some p) \<Rightarrow> parse_and_prepare X (Some p) e1
         | Inr None \<Rightarrow>
             (case openmc_exe X d st (fuel_material e1) (disk e1) of
                (ok, fs) \<Rightarrow>
                  (let e2 = e1\<lparr>disk := fs, trace := trace e1 @ [OmcRun d]\<rparr> in
                   if \<not> ok then (Inl CalledProcessError, e2)
                   else (case find_statepoint d (disk e2) of
                           Inl err \<Rightarrow> (Inl err, e2)
                         | Inr path \<Rightarrow> parse_and_prepare X path e2))))"

subsection \<open>The transmutation stage\<close>

text \<open>
  \<^verbatim>\<open>_make_origen_input\<close> writes TAPE4 from \<^verbatim>\<open>rc.fuel_material\<close>, TAPE5 from the
  irradiation time and the total flux \<^verbatim>\<open>phi_g.sum()\<close>, and TAPE9. (The debugger breakpoint left in that
  function is not part of the model.)
\<close>

definition make_origen_input :: "ext \<Rightarrow> state \<Rightarrow> rat \<Rightarrow> flux \<Rightarrow> engine \<Rightarrow> engine" where
  "make_origen_input X st transmute_time phi_g e =
     e\<lparr>trace := trace e @
         [OrigenInput (pwd X st ''origen'') (fuel_material e) transmute_time (np_sum X phi_g)]\<rparr>"

definition origen ::
  "ext \<Rightarrow> state \<Rightarrow> xstab \<Rightarrow> rat \<Rightarrow> flux \<Rightarrow> engine \<Rightarrow> (error + material) \<times> engine" where
  "origen X st xs transmute_time phi_g e =
     (let d = pwd X st ''origen'';
          e1 = make_origen_input X st transmute_time phi_g (makedirs d e);
          call = (case origen_call X of
                    None \<Rightarrow> if is_thermal X then ''o2_therm_linux.exe'' else ''o2_fast_linux.exe''
                  | Some c \<Rightarrow> c);
          e2 = e1\<lparr>trace := trace e1 @ [OrigenRun d call]\<rparr>
      in case origen_exe X call st (fuel_material e2) transmute_time (np_sum X phi_g) of
           Inl err \<Rightarrow> (Inl err, e2)
         | Inr mats \<Rightarrow> (if mats = [] then (Inl IndexError, e2) else (Inr (last mats), e2)))"

subsection \<open>The memoised solve and the run library\<close>

definition generate :: "ext \<Rightarrow> state \<Rightarrow> rat \<Rightarrow> engine \<Rightarrow> (error + genresult) \<times> engine" where
  "generate X st transmute_time e =
     (case statelibs e st of
        Some (k, phi_g, xs) \<Rightarrow> (Inr (Triple k phi_g xs), e)
      | None \<Rightarrow>
          (case openmc X st e of
             (Inl err, e1) \<Rightarrow> (Inl err, e1)
           | (Inr (k, phi_g, xs), e1) \<Rightarrow>
               (let e2 = e1\<lparr>statelibs := (statelibs e1)(st \<mapsto> (k, phi_g, xs))\<rparr> in
                case origen X st xs transmute_time phi_g e2 of
                  (Inl err, e3) \<Rightarrow> (Inl err, e3)
                | (Inr mat, e3) \<Rightarrow>
                    (Inr (Quad k phi_g xs mat), e3\<lparr>fuel_material := mat\<rparr>))))"

text \<open>\<^verbatim>\<open>state.burn_times\<close>: the attribute of the namedtuple, if it has that field.\<close>

definition burn_times :: "state \<Rightarrow> error + rat" where
  "burn_times st =
     (case map_of st ''burn_times'' of None \<Rightarrow> Inl AttributeError | Some t \<Rightarrow> Inr t)"

text \<open>
  The irradiation interval of a step, from the state and the states after it:
  \<^verbatim>\<open>run[i+1].burn_times - state.burn_times\<close> when \<^verbatim>\<open>i < len(run) - 1\<close>, else 0.
\<close>

definition transmute_time_of :: "state \<Rightarrow> run \<Rightarrow> error + rat" where
  "transmute_time_of st rest =
     (case rest of
        [] \<Rightarrow> Inr 0
      | nxt # _ \<Rightarrow>
          (case burn_times nxt of
             Inl err \<Rightarrow> Inl err
           | Inr t1 \<Rightarrow> (case burn_times st of Inl err \<Rightarrow> Inl err | Inr t0 \<Rightarrow> Inr (t1 - t0))))"

type_synonym library = "string \<rightharpoonup> rat list"

definition lib_append :: "string \<Rightarrow> rat \<Rightarrow> library \<Rightarrow> library" where
  "lib_append key v lib = (case lib key of None \<Rightarrow> lib | Some l \<Rightarrow> lib(key \<mapsto> l @ [v]))"

definition empty_lib :: library where
  "empty_lib = [''TIME'' \<mapsto> [], ''NEUT_PROD'' \<mapsto> [], ''NEUT_DEST'' \<mapsto> [], ''BUd'' \<mapsto> []]"

text \<open>
  The loop \<^verbatim>\<open>for i, state in enumerate(run)\<close> of \<^verbatim>\<open>generate_run\<close>, on the states still
  to visit. Unpacking the result of \<^verbatim>\<open>generate\<close> into four names raises
  \<^verbatim>\<open>ValueError\<close> when it is the 3-tuple of a cache hit.
\<close>

fun run_loop ::
  "ext \<Rightarrow> run \<Rightarrow> library \<Rightarrow> material list \<Rightarrow> engine
     \<Rightarrow> (error + library \<times> material list) \<times> engine" where
  "run_loop X [] run_lib mat_hist e = (Inr (run_lib, mat_hist), e)"
| "run_loop X (st # rest) run_lib mat_hist e =
     (case transmute_time_of st rest of
        Inl err \<Rightarrow> (Inl err, e)
      | Inr transmute_time \<Rightarrow>
          (case generate X st transmute_time e of
             (Inl err, e1) \<Rightarrow> (Inl err, e1)
           | (Inr (Triple k phi_g xs), e1) \<Rightarrow> (Inl ValueError, e1)
           | (Inr (Quad k phi_g xs mat), e1) \<Rightarrow>
               (case burn_times st of
                  Inl err \<Rightarrow> (Inl err, e1)
                | Inr t \<Rightarrow>
                    run_loop X rest
                      (lib_append ''BUd'' 0 (lib_append ''NEUT_DEST'' 0
                         (lib_append ''NEUT_PROD'' 0 (lib_append ''TIME'' t run_lib))))
                      (mat_hist @ [mat]) e1)))"

text \<open>\<^verbatim>\<open>[mat.comp[nuc] for mat in mat_hist]\<close>\<close>

fun history :: "int \<Rightarrow> material list \<Rightarrow> error + rat list" where
  "history nuc [] = Inr []"
| "history nuc (mat # mats) =
     (case map_of mat nuc of
        None \<Rightarrow> Inl KeyError
      | Some v \<Rightarrow> (case history nuc mats of Inl err \<Rightarrow> Inl err | Inr vs \<Rightarrow> Inr (v # vs)))"

fun histories ::
  "(int \<Rightarrow> string) \<Rightarrow> int list \<Rightarrow> material list \<Rightarrow> error + (string \<times> rat list) list" where
  "histories nm [] mat_hist = Inr []"
| "histories nm (nuc # nucs) mat_hist =
     (case history nuc mat_hist of
        Inl err \<Rightarrow> Inl err
      | Inr h \<Rightarrow>
          (case histories nm nucs mat_hist of
             Inl err \<Rightarrow> Inl err
           | Inr hs \<Rightarrow> Inr ((nm nuc, h) # hs)))"

text \<open>
  The nuclides of the history, \<^verbatim>\<open>set(nucs)\<close>, are visited in an order Python does not
  fix; the order of first occurrence stands for it.
\<close>

definition all_nucs :: "material list \<Rightarrow> int list" where
  "all_nucs mat_hist = remdups (concat (map (map fst) mat_hist))"

definition assemble :: "ext \<Rightarrow> library \<Rightarrow> material list \<Rightarrow> error + library" where
  "assemble X run_lib mat_hist =
     (case histories (nucname X) (all_nucs mat_hist) mat_hist of
        Inl err \<Rightarrow> Inl err
      | Inr hs \<Rightarrow> Inr (run_lib ++ map_of (rev hs)))"

definition generate_run :: "ext \<Rightarrow> run \<Rightarrow> engine \<Rightarrow> (error + library) \<times> engine" where
  "generate_run X rn e =
     (case run_loop X rn empty_lib [] e of
        (Inl err, e1) \<Rightarrow> (Inl err, e1)
      | (Inr (run_lib, mat_hist), e1) \<Rightarrow> (assemble X run_lib mat_hist, e1))"

section \<open>The transmutation matrix of the Bright-lite writer\<close>

text \<open>
  The loop \<^verbatim>\<open>while i < len(matlib['material'])\<close> of \<^verbatim>\<open>BrightliteWriter.write\<close>. The
  body visits the entries of the composition of step \<open>i\<close>: a nuclide that already has a
  row gets its value appended; one without a row (the \<^verbatim>\<open>KeyError\<close> branch) gets a row
  of \<open>i\<close> zeros and its value if the value exceeds \<^verbatim>\<open>rc.track_nuc_threshold\<close>.
\<close>

type_synonym trans_matrix = "string \<rightharpoonup> rat list"

definition tm_entry ::
  "(int \<Rightarrow> string) \<Rightarrow> rat \<Rightarrow> nat \<Rightarrow> int \<times> rat \<Rightarrow> trans_matrix \<Rightarrow> trans_matrix" where
  "tm_entry nm threshold i p tm =
     (case tm (nm (fst p)) of
        Some row \<Rightarrow> tm(nm (fst p) \<mapsto> row @ [snd p * 1000])
      | None \<Rightarrow>
          if snd p > threshold then tm(nm (fst p) \<mapsto> replicate i 0 @ [snd p * 1000])
          else tm)"

fun tm_loop ::
  "(int \<Rightarrow> string) \<Rightarrow> rat \<Rightarrow> nat \<Rightarrow> material list \<Rightarrow> trans_matrix \<Rightarrow> trans_matrix" where
  "tm_loop nm threshold i [] tm = tm"
| "tm_loop nm threshold i (mat # mats) tm =
     tm_loop nm threshold (i + 1) mats (fold (tm_entry nm threshold i) mat tm)"

definition trans_matrix_of :: "(int \<Rightarrow> string) \<Rightarrow> rat \<Rightarrow> material list \<Rightarrow> trans_matrix" where
  "trans_matrix_of nm threshold mats = tm_loop nm threshold 0 mats Map.empty"

section \<open>Library generation in \<^verbatim>\<open>XSGenPlugin.execute\<close>\<close>

text \<open>\<^verbatim>\<open>str(run_num)\<close> for a natural number.\<close>

fun str_nat :: "nat \<Rightarrow> string" where
  "str_nat n =
     (if n < 10 then [char_of (48 + n)]
      else str_nat (n div 10) @ [char_of (48 + n mod 10)])"

declare str_nat.simps [simp del]

text \<open>
  The call \<^verbatim>\<open>rc.engine.generate_run(run, ...)\<close>: \<^verbatim>\<open>generate_run(self, run)\<close> takes the
  run and nothing else, so Python raises \<^verbatim>\<open>TypeError\<close>, before the body runs, when
  further positional arguments are passed.
\<close>

definition engine_generate_run ::
  "ext \<Rightarrow> run \<Rightarrow> string list \<Rightarrow> engine \<Rightarrow> (error + library) \<times> engine" where
  "engine_generate_run X rn extra e =
     (if extra \<noteq> [] then (Inl TypeError, e) else generate_run X rn e)"

record runcontrol =
  states :: "state list"
  outdirs :: "string list"
  writers :: "string list"

text \<open>
  What \<^verbatim>\<open>execute\<close> acts on: the engine, \<^verbatim>\<open>rc.runs\<close>, and the libraries handed to the
  writers, as (writer, library, target name) in the order of the calls.
\<close>

record world =
  eng :: engine
  rc_runs :: "run list"
  delivered :: "(string \<times> library \<times> string) list"

definition write_all :: "string list \<Rightarrow> library \<Rightarrow> string \<Rightarrow> world \<Rightarrow> world" where
  "write_all ws libs fname w =
     fold (\<lambda>writer w'. w'\<lparr>delivered := delivered w' @ [(writer, libs, fname)]\<rparr>) ws w"

text \<open>The loop \<^verbatim>\<open>for run_num, run in enumerate(rc.runs)\<close>.\<close>

fun lib_loop ::
  "ext \<Rightarrow> runcontrol \<Rightarrow> (nat \<times> run) list \<Rightarrow> world \<Rightarrow> (error + unit) \<times> world" where
  "lib_loop X rc [] w = (Inr (), w)"
| "lib_loop X rc ((run_num, rn) # rest) w =
     (case outdirs rc of
        [] \<Rightarrow> (Inl IndexError, w)
      | outdir # _ \<Rightarrow>
          (let basepath = path_join (builddir X) outdir;
               fname = basepath @ str_nat run_num
           in case engine_generate_run X rn [fname] (eng w) of
                (Inl err, e1) \<Rightarrow> (Inl err, w\<lparr>eng := e1\<rparr>)
              | (Inr libs, e1) \<Rightarrow>
                  lib_loop X rc rest (write_all (writers rc) libs fname (w\<lparr>eng := e1\<rparr>))))"

definition execute :: "ext \<Rightarrow> runcontrol \<Rightarrow> world \<Rightarrow> (error + unit) \<times> world" where
  "execute X rc w =
     (case group_states (states rc) of
        Inl err \<Rightarrow> (Inl err, w)
      | Inr runs \<Rightarrow> lib_loop X rc (enumerate 0 runs) (w\<lparr>rc_runs := runs\<rparr>))"

section \<open>Notions used to state the properties\<close>

text \<open>The key of a run is the non-time part of its first member.\<close>

definition run_key :: "run \<Rightarrow> state" where
  "run_key r = non_time (hd r)"

definition extend_runs :: "state \<Rightarrow> run list \<Rightarrow> run list" where
  "extend_runs st runs = map (\<lambda>r. if run_key r = non_time st then r @ [st] else r) runs"

text \<open>
  The invariant of the grouping loop: the runs have pairwise different keys, none is
  empty, and every member of a run has the schema and the key of the run.
\<close>

definition grp_inv :: "string list \<Rightarrow> run list \<Rightarrow> bool" where
  "grp_inv fs runs \<longleftrightarrow>
     distinct (map run_key runs) \<and>
     (\<forall>r \<in> set runs. r \<noteq> [] \<and> (\<forall>s \<in> set r. map fst s = fs \<and> non_time s = run_key r))"

text \<open>A statepoint artifact exists in a directory.\<close>

definition has_statepoint :: "filesys \<Rightarrow> string \<Rightarrow> bool" where
  "has_statepoint fs d =
     (case listdir fs d of
        None \<Rightarrow> False
      | Some names \<Rightarrow> \<exists>f \<in> set names. startswith f ''statepoint'')"

text \<open>The events a call has added to the trace.\<close>

definition new_events :: "engine \<Rightarrow> engine \<Rightarrow> event list" where
  "new_events e e' = drop (length (trace e)) (trace e')"

text \<open>
  The fuel materials from which transport inputs were rendered, and the material and
  irradiation time written to the transmutation inputs, in order.
\<close>

fun omc_inputs :: "event list \<Rightarrow> material list" where
  "omc_inputs [] = []"
| "omc_inputs (OmcInput d m # evs) = m # omc_inputs evs"
| "omc_inputs (_ # evs) = omc_inputs evs"

fun origen_inputs :: "event list \<Rightarrow> (material \<times> rat) list" where
  "origen_inputs [] = []"
| "origen_inputs (OrigenInput d m t phi # evs) = (m, t) # origen_inputs evs"
| "origen_inputs (_ # evs) = origen_inputs evs"

fun solver_runs :: "event list \<Rightarrow> nat" where
  "solver_runs [] = 0"
| "solver_runs (OmcRun d # evs) = Suc (solver_runs evs)"
| "solver_runs (OrigenRun d c # evs) = Suc (solver_runs evs)"
| "solver_runs (_ # evs) = solver_runs evs"

text \<open>A call returned a value rather than raising.\<close>

definition returns :: "(error + 'a) \<times> 's \<Rightarrow> bool" where
  "returns p = (case fst p of Inl err \<Rightarrow> False | Inr v \<Rightarrow> True)"

text \<open>The exception a call raised, if any.\<close>

definition raised :: "(error + 'a) \<times> 's \<Rightarrow> error option" where
  "raised p = (case fst p of Inl err \<Rightarrow> Some err | Inr v \<Rightarrow> None)"

text \<open>
  One transmutation solve: \<open>m_out\<close> is the last material the ORIGEN process yields
  for a state, the material of its TAPE4 and the irradiation time of its TAPE5.
\<close>

definition solved_by :: "ext \<Rightarrow> state \<times> material \<times> rat \<Rightarrow> material \<Rightarrow> bool" where
  "solved_by X inp m_out =
     (case inp of (st, m_in, t) \<Rightarrow>
        \<exists>call phi mats. origen_exe X call st m_in t phi = Inr mats \<and> mats \<noteq> [] \<and>
                        m_out = last mats)"

text \<open>
  The irradiation intervals of a run in the words of the specification: the difference
  of the time-axis values of a state and its successor, and zero for the last state.
\<close>

fun intervals :: "rat list \<Rightarrow> rat list" where
  "intervals [] = []"
| "intervals [t] = [0]"
| "intervals (t0 # t1 # ts) = (t1 - t0) # intervals (t1 # ts)"

text \<open>Every row of a library has \<open>n\<close> entries.\<close>

definition scalar_rows :: "nat \<Rightarrow> library \<Rightarrow> bool" where
  "scalar_rows n lib \<longleftrightarrow> (\<forall>key h. lib key = Some h \<longrightarrow> length h = n)"

text \<open>
  The history of one nuclide in the transmutation matrix, from its fraction at each
  step (\<open>None\<close> where the composition does not hold it) and the row so far.
\<close>

fun track :: "rat \<Rightarrow> nat \<Rightarrow> rat option list \<Rightarrow> rat list option \<Rightarrow> rat list option" where
  "track threshold i [] row = row"
| "track threshold i (None # vs) row = track threshold (i + 1) vs row"
| "track threshold i (Some v # vs) (Some r) =
     track threshold (i + 1) vs (Some (r @ [v * 1000]))"
| "track threshold i (Some v # vs) None =
     track threshold (i + 1) vs
       (if v > threshold then Some (replicate i 0 @ [v * 1000]) else None)"

section \<open>Two models of numpy's arithmetic\<close>



text \<open>
  IEEE 754 binary64 arithmetic with rounding to nearest, ties to even: the result of an
  operation is the exact result rounded to 53 significant bits. The exponent range is
  not bounded here, so overflow and subnormal numbers are outside this model. The sum
  adds the entries from left to right.
\<close>

function bit_length :: "int \<Rightarrow> nat" where
  "bit_length k = (if k \<le> 0 then 0 else Suc (bit_length (k div 2)))"
  by pat_completeness auto
termination
  by (relation "measure nat") auto

declare bit_length.simps [simp del]

definition ipow2 :: "int \<Rightarrow> int" where
  "ipow2 k = 2 ^ nat k"

text \<open>
  A positive rational \<open>a / b\<close> lies in the binade \<open>[2^e, 2^(e+1))\<close>; its 53-bit
  significand is the quotient of \<open>a * 2^(52 - e)\<close> by \<open>b\<close> (or of \<open>a\<close> by
  \<open>b * 2^(e - 52)\<close>), rounded to the nearest integer with ties to even.
\<close>

definition round53_pos :: "rat \<Rightarrow> rat" where
  "round53_pos q =
     (let a = fst (quotient_of q);
          b = snd (quotient_of q);
          e0 = int (bit_length a) - int (bit_length b);
          e = (if a * ipow2 (- e0) < b * ipow2 e0 then e0 - 1 else e0);
          num = a * ipow2 (52 - e);
          den = b * ipow2 (e - 52);
          n = num div den;
          r = num mod den;
          m = (if 2 * r < den then n
               else if den < 2 * r then n + 1
               else if even n then n else n + 1)
      in of_int (m * ipow2 (e - 52)) / of_int (ipow2 (52 - e)))"

definition round53 :: "rat \<Rightarrow> rat" where
  "round53 q = (if q = 0 then 0 else if q < 0 then - round53_pos (- q) else round53_pos q)"

fun ieee_add :: "npfloat \<Rightarrow> npfloat \<Rightarrow> npfloat" where
  "ieee_add (Fin a) (Fin b) = Fin (round53 (a + b))"
| "ieee_add _ _ = NonFinite"

fun ieee_sum_from :: "npfloat \<Rightarrow> npfloat list \<Rightarrow> npfloat" where
  "ieee_sum_from acc [] = acc"
| "ieee_sum_from acc (x # xs) = ieee_sum_from (ieee_add acc x) xs"

definition ieee_sum :: "npfloat list \<Rightarrow> npfloat" where
  "ieee_sum xs = ieee_sum_from (Fin 0) xs"

fun ieee_divide :: "npfloat \<Rightarrow> npfloat \<Rightarrow> npfloat" where
  "ieee_divide (Fin a) (Fin b) = (if b = 0 then NonFinite else Fin (round53 (a / b)))"
| "ieee_divide _ _ = NonFinite"

section \<open>A stub configuration\<close>

text \<open>
  Stand-ins for the external collaborators, to evaluate the engine on concrete runs:
  a transport solver that writes one statepoint with a two-group flux tally, and a
  transmutation solver under which every nuclide loses 1% per 100 time units.
\<close>

definition stub_sp :: statepoint where
  "stub_sp = \<lparr>k_combined = (1, 0), tallies = [[[[1, 0]], [[3, 0]]]]\<rparr>"

definition stub_openmc :: "string \<Rightarrow> state \<Rightarrow> material \<Rightarrow> filesys \<Rightarrow> bool \<times> filesys" where
  "stub_openmc d st m fs =
     (True,
      fs\<lparr>listdir := (listdir fs)(d \<mapsto>
            (case listdir fs d of None \<Rightarrow> [] | Some l \<Rightarrow> l) @ [''statepoint.10.binary'']),
         spfile := (spfile fs)(path_join d ''statepoint.10.binary'' \<mapsto> stub_sp)\<rparr>)"

definition stub_origen ::
  "string \<Rightarrow> state \<Rightarrow> material \<Rightarrow> rat \<Rightarrow> npfloat \<Rightarrow> error + material list" where
  "stub_origen call st m t phi = Inr [m, map (\<lambda>(nuc, v). (nuc, v * (1 - t / 10000))) m]"

definition stub_hash :: "state \<Rightarrow> string" where
  "stub_hash st = concat (map (\<lambda>p. str_nat (nat \<lfloor>snd p\<rfloor>) @ ''_'') st)"

definition stub_ext :: ext where
  "stub_ext =
     \<lparr>builddir = ''build-lwr'', hash_state = stub_hash, openmc_exe = stub_openmc,
      origen_call = None, is_thermal = True, origen_exe = stub_origen,
      track_nucs = [922350], reactions = [], xscache = (\<lambda>src phi nuc rx. []),
      nucname = (\<lambda>nuc. if nuc = 922350 then ''U235'' else ''X''),
      np_sum = ieee_sum, np_divide = ieee_divide\<rparr>"

text \<open>The same configuration with a transmutation solver that exits with an error.\<close>

definition failing_origen_ext :: ext where
  "failing_origen_ext =
     stub_ext\<lparr>origen_exe := (\<lambda>call st m t phi. Inl CalledProcessError)\<rparr>"

definition fresh_engine :: engine where
  "fresh_engine =
     \<lparr>statelibs = Map.empty, fuel_material = [(922350, 1)], src_phi_g = (\<lambda>ds. []),
      disk = \<lparr>listdir = Map.empty, spfile = Map.empty\<rparr>, trace = []\<rparr>"

definition state_of :: "rat \<Rightarrow> rat \<Rightarrow> state" where
  "state_of enrichment t = [(''enrichment'', enrichment), (''burn_times'', t)]"

definition run_a :: run where
  "run_a = [state_of 4 0, state_of 4 100, state_of 4 200]"

text \<open>The engine after a first run, and after a first solve.\<close>

definition after_first_run :: engine where
  "after_first_run = snd (generate_run stub_ext [state_of 4 0, state_of 4 100] fresh_engine)"

definition after_first_solve :: engine where
  "after_first_solve = snd (generate stub_ext (state_of 4 0) 100 fresh_engine)"

text \<open>The stub configuration with a transport solver that exits with an error.\<close>

definition failing_openmc_ext :: ext where
  "failing_openmc_ext = stub_ext\<lparr>openmc_exe := (\<lambda>d st m fs. (False, fs))\<rparr>"




text \<open>
  The stub configuration with a transmutation solver whose output holds a second
  nuclide once the cumulative burn time has reached 200.
\<close>

definition buildup_origen ::
  "string \<Rightarrow> state \<Rightarrow> material \<Rightarrow> rat \<Rightarrow> npfloat \<Rightarrow> error + material list" where
  "buildup_origen call st m t phi =
     Inr [map (\<lambda>(nuc, v). (nuc, v * (1 - t / 10000))) m @
          (if (case map_of st ''burn_times'' of None \<Rightarrow> 0 | Some b \<Rightarrow> b) + t \<ge> 200 \<and>
              map_of m 942390 = None
           then [(942390, 1 / 100)] else [])]"

definition buildup_ext :: ext where
  "buildup_ext = stub_ext\<lparr>origen_exe := buildup_origen\<rparr>"

text \<open>
  Three steps of compositions: the second nuclide is absent at step 0, below the
  threshold 1/10 at step 1 and above it at step 2.
\<close>

definition mats_a :: "material list" where
  "mats_a = [[(922350, 1 / 2)], [(922350, 1 / 2), (942390, 1 / 20)],
             [(922350, 2 / 5), (942390, 1 / 5)]]"

text \<open>Two steps in which the first nuclide is gone at step 1.\<close>

definition mats_b :: "material list" where
  "mats_b = [[(922350, 1 / 2)], [(942390, 1 / 2)]]"

definition stub_rc :: runcontrol where
  "stub_rc = \<lparr>states = [state_of 4 0, state_of 4 100, state_of 5 0],
              outdirs = [''brightlite''], writers = [''brightlite'']\<rparr>"

definition fresh_world :: world where
  "fresh_world = \<lparr>eng = fresh_engine, rc_runs = [], delivered = []\<rparr>"

section \<open>Properties of the grouping\<close>

lemma same_loop_iff:
  "same_loop s1 s2 js =
     (\<forall>i \<in> set js. fst (s1 ! i) \<noteq> ''burn_times'' \<longrightarrow> snd (s1 ! i) = snd (s2 ! i))"
  by (induction js) auto


lemma non_time_eq_iff:
  "length s1 = length s2 \<Longrightarrow> map fst s1 = map fst s2 \<Longrightarrow>
   (non_time s1 = non_time s2) =
   (\<forall>i < length s1. fst (s1 ! i) \<noteq> ''burn_times'' \<longrightarrow> snd (s1 ! i) = snd (s2 ! i))"
proof (induction s1 s2 rule: list_induct2)
  case Nil
  then show ?case by (simp add: non_time_def)
next
  case (Cons x xs y ys)
  then have IH: "(non_time xs = non_time ys) =
    (\<forall>i < length xs. fst (xs ! i) \<noteq> ''burn_times'' \<longrightarrow> snd (xs ! i) = snd (ys ! i))"
    and fxy: "fst x = fst y" by simp_all
  have split: "\<And>Q. (\<forall>i < Suc (length xs). Q i) = (Q 0 \<and> (\<forall>i < length xs. Q (Suc i)))"
    by (metis less_Suc_eq_0_disj Suc_less_eq zero_less_Suc)
  show ?case
    using IH fxy unfolding non_time_def
    by (cases x; cases y) (auto simp: split)
qed

lemma same_except_schema:
  assumes "map fst s1 = map fst s2"
  shows "same_except_burnup_time s1 s2 = Inr (non_time s1 = non_time s2)"
proof -
  have len: "length s1 = length s2" using assms by (metis length_map)
  show ?thesis
    unfolding same_except_burnup_time_def
    using len non_time_eq_iff[OF len assms] by (auto simp add: same_loop_iff)
qed

lemma scan_runs_schema:
  assumes "\<forall>r \<in> set runs. r \<noteq> [] \<and> (\<forall>s \<in> set r. map fst s = fs)" "map fst st = fs"
  shows "scan_runs st runs ae =
     Inr (extend_runs st runs, ae \<or> (\<exists>r \<in> set runs. run_key r = non_time st))"
  using assms
proof (induction runs arbitrary: ae)
  case Nil
  then show ?case by (simp add: extend_runs_def)
next
  case (Cons r rest)
  then obtain r0 rs where r: "r = r0 # rs" by (cases r) auto
  have "map fst r0 = map fst st" using Cons.prems r by simp
  then have se: "same_except_burnup_time r0 st = Inr (non_time r0 = non_time st)"
    by (rule same_except_schema)
  have IH: "\<And>ae. scan_runs st rest ae =
     Inr (extend_runs st rest, ae \<or> (\<exists>r \<in> set rest. run_key r = non_time st))"
    using Cons by simp
  show ?case
    by (cases "non_time r0 = non_time st") (simp_all add: r se IH extend_runs_def run_key_def)
qed

lemma run_key_extend: "r \<noteq> [] \<Longrightarrow> run_key (r @ [st]) = run_key r"
  by (simp add: run_key_def)

lemma map_key_extend:
  "\<forall>r \<in> set runs. r \<noteq> [] \<Longrightarrow> map run_key (extend_runs st runs) = map run_key runs"
  by (induction runs) (auto simp: extend_runs_def run_key_extend)

lemma mset_extend_none:
  "non_time st \<notin> run_key ` set runs \<Longrightarrow> extend_runs st runs = runs"
  by (induction runs) (auto simp: extend_runs_def)

lemma mset_extend_one:
  "distinct (map run_key runs) \<Longrightarrow> non_time st \<in> run_key ` set runs \<Longrightarrow>
   mset (concat (extend_runs st runs)) = add_mset st (mset (concat runs))"
proof (induction runs)
  case Nil
  then show ?case by simp
next
  case (Cons r rest)
  show ?case
  proof (cases "run_key r = non_time st")
    case True
    then have "non_time st \<notin> run_key ` set rest" using Cons.prems by auto
    then have "extend_runs st rest = rest" by (rule mset_extend_none)
    then have "extend_runs st (r # rest) = (r @ [st]) # rest"
      using True by (simp add: extend_runs_def)
    then show ?thesis by simp
  next
    case False
    then have "non_time st \<in> run_key ` set rest" using Cons.prems by auto
    then have "mset (concat (extend_runs st rest)) = add_mset st (mset (concat rest))"
      using Cons by simp
    moreover have "extend_runs st (r # rest) = r # extend_runs st rest"
      using False by (simp add: extend_runs_def)
    ultimately show ?thesis by simp
  qed
qed

lemma grp_inv_extend:
  assumes "grp_inv fs runs" "map fst st = fs"
  shows "grp_inv fs (extend_runs st runs)"
proof -
  have ne: "\<forall>r \<in> set runs. r \<noteq> []" using assms(1) by (simp add: grp_inv_def)
  have "distinct (map run_key (extend_runs st runs))"
    using assms(1) map_key_extend[OF ne] by (simp add: grp_inv_def)
  moreover have "\<forall>r \<in> set (extend_runs st runs).
      r \<noteq> [] \<and> (\<forall>s \<in> set r. map fst s = fs \<and> non_time s = run_key r)"
    using assms unfolding grp_inv_def extend_runs_def
    by (auto simp: run_key_extend)
  ultimately show ?thesis by (simp add: grp_inv_def)
qed

lemma grp_inv_new:
  assumes "grp_inv fs runs" "map fst st = fs" "non_time st \<notin> run_key ` set runs"
  shows "grp_inv fs (runs @ [[st]])"
proof -
  have k: "run_key [st] = non_time st" by (simp add: run_key_def)
  have "distinct (map run_key (runs @ [[st]]))"
    using assms(1,3) by (simp add: grp_inv_def k)
  moreover have "\<forall>r \<in> set (runs @ [[st]]).
      r \<noteq> [] \<and> (\<forall>s \<in> set r. map fst s = fs \<and> non_time s = run_key r)"
    using assms(1,2) k by (simp add: grp_inv_def)
  ultimately show ?thesis by (simp only: grp_inv_def)
qed

lemma group_loop_inv:
  assumes "grp_inv fs runs" "\<forall>s \<in> set sts. map fst s = fs"
  shows "\<exists>runs'. group_loop sts runs = Inr runs' \<and> grp_inv fs runs' \<and>
           mset (concat runs') = mset (concat runs) + mset sts"
  using assms
proof (induction sts arbitrary: runs)
  case Nil
  then show ?case by simp
next
  case (Cons st sts)
  have st: "map fst st = fs" using Cons.prems by simp
  have wf: "\<forall>r \<in> set runs. r \<noteq> [] \<and> (\<forall>s \<in> set r. map fst s = fs)"
    using Cons.prems(1) by (simp add: grp_inv_def)
  have sc: "scan_runs st runs False =
     Inr (extend_runs st runs, \<exists>r \<in> set runs. run_key r = non_time st)"
    using scan_runs_schema[OF wf st, of False] by simp
  show ?case
  proof (cases "\<exists>r \<in> set runs. run_key r = non_time st")
    case True
    then have mem: "non_time st \<in> run_key ` set runs" by force
    have step: "group_loop (st # sts) runs = group_loop sts (extend_runs st runs)"
      using sc True by simp
    have inv': "grp_inv fs (extend_runs st runs)"
      using grp_inv_extend[OF Cons.prems(1) st] .
    have ms: "mset (concat (extend_runs st runs)) = add_mset st (mset (concat runs))"
      using mset_extend_one[OF _ mem] Cons.prems(1) by (simp add: grp_inv_def)
    from Cons.IH[OF inv'] Cons.prems(2) obtain runs' where
      "group_loop sts (extend_runs st runs) = Inr runs'" "grp_inv fs runs'"
      "mset (concat runs') = mset (concat (extend_runs st runs)) + mset sts"
      by auto
    then show ?thesis using step ms by simp
  next
    case False
    then have nmem: "non_time st \<notin> run_key ` set runs" by force
    have ext: "extend_runs st runs = runs" using nmem by (rule mset_extend_none)
    have step: "group_loop (st # sts) runs = group_loop sts (runs @ [[st]])"
      using sc False ext by simp
    have inv': "grp_inv fs (runs @ [[st]])"
      using grp_inv_new[OF Cons.prems(1) st nmem] .
    from Cons.IH[OF inv'] Cons.prems(2) obtain runs' where
      "group_loop sts (runs @ [[st]]) = Inr runs'" "grp_inv fs runs'"
      "mset (concat runs') = mset (concat (runs @ [[st]])) + mset sts"
      by auto
    then show ?thesis using step by simp
  qed
qed


lemma grp_inv_same_run:
  assumes inv: "grp_inv fs runs" and s: "s \<in> set (concat runs)" and t: "t \<in> set (concat runs)"
  shows "(\<exists>r \<in> set runs. s \<in> set r \<and> t \<in> set r) = (non_time s = non_time t)"
proof
  assume "\<exists>r \<in> set runs. s \<in> set r \<and> t \<in> set r"
  then obtain r where "r \<in> set runs" "s \<in> set r" "t \<in> set r" by blast
  then have "non_time s = run_key r" "non_time t = run_key r"
    using inv by (simp_all add: grp_inv_def)
  then show "non_time s = non_time t" by simp
next
  assume eq: "non_time s = non_time t"
  obtain r1 where r1: "r1 \<in> set runs" "s \<in> set r1" using s by auto
  obtain r2 where r2: "r2 \<in> set runs" "t \<in> set r2" using t by auto
  have "run_key r1 = run_key r2"
    using inv r1 r2 eq by (simp add: grp_inv_def)
  moreover have "inj_on run_key (set runs)"
    using inv by (simp add: grp_inv_def distinct_map)
  ultimately have "r1 = r2" using r1(1) r2(1) by (simp add: inj_on_def)
  then show "\<exists>r \<in> set runs. s \<in> set r \<and> t \<in> set r" using r1 r2 by blast
qed

lemma grp_inv_unique_run:
  assumes inv: "grp_inv fs runs" and s: "s \<in> set (concat runs)"
  shows "\<exists>!r. r \<in> set runs \<and> s \<in> set r"
proof -
  obtain r1 where r1: "r1 \<in> set runs" "s \<in> set r1" using s by auto
  have inj: "inj_on run_key (set runs)"
    using inv by (simp add: grp_inv_def distinct_map)
  have "r = r1" if "r \<in> set runs" "s \<in> set r" for r
  proof -
    have "non_time s = run_key r" "non_time s = run_key r1"
      using inv that r1 unfolding grp_inv_def by blast+
    then show ?thesis using inj that(1) r1(1) by (simp add: inj_on_def)
  qed
  then show ?thesis using r1 by blast
qed

lemma grp_inv_empty: "grp_inv fs []"
  by (simp add: grp_inv_def)

text \<open>
  Claim C1. For every input sequence of States with one parameter schema, the grouping
  loop of \<^verbatim>\<open>execute\<close> returns runs such that: the runs taken together hold exactly the
  input States, with multiplicity; no run is empty; every input State is in exactly one
  run; and two input States are in the same run if and only if they are identical on
  every parameter other than \<^verbatim>\<open>burn_times\<close>.
\<close>

theorem grouping_partition:
  assumes "\<forall>s \<in> set sts. map fst s = fs"
  shows "\<exists>runs. group_states sts = Inr runs \<and>
           mset (concat runs) = mset sts \<and>
           [] \<notin> set runs \<and>
           (\<forall>s \<in> set sts. \<exists>!r. r \<in> set runs \<and> s \<in> set r) \<and>
           (\<forall>s \<in> set sts. \<forall>t \<in> set sts.
              (\<exists>r \<in> set runs. s \<in> set r \<and> t \<in> set r) = (non_time s = non_time t))"
proof -
  from group_loop_inv[OF grp_inv_empty assms] obtain runs where
    g: "group_loop sts [] = Inr runs" and inv: "grp_inv fs runs"
    and ms: "mset (concat runs) = mset sts"
    by auto
  have st: "set (concat runs) = set sts" using ms by (rule mset_eq_setD)
  have "[] \<notin> set runs" using inv by (auto simp: grp_inv_def)
  moreover have "\<forall>s \<in> set sts. \<exists>!r. r \<in> set runs \<and> s \<in> set r"
    using grp_inv_unique_run[OF inv] st by blast
  moreover have "\<forall>s \<in> set sts. \<forall>t \<in> set sts.
      (\<exists>r \<in> set runs. s \<in> set r \<and> t \<in> set r) = (non_time s = non_time t)"
    using grp_inv_same_run[OF inv] st by blast
  ultimately show ?thesis using g ms by (simp add: group_states_def)
qed

theorem grouping_partition_witness:
  "list_all (\<lambda>s. map fst s = [''enrichment'', ''burn_times''])
     [state_of 4 0, state_of 4 100, state_of 4 200, state_of 5 0] \<and>
   group_states [state_of 4 0, state_of 4 100, state_of 4 200, state_of 5 0]
     = Inr [[state_of 4 0, state_of 4 100, state_of 4 200], [state_of 5 0]]"
  using grouping_partition[of "[state_of 4 0, state_of 4 100, state_of 4 200, state_of 5 0]"
          "[''enrichment'', ''burn_times'']"]
  by (simp add: group_states_def same_except_burnup_time_def state_of_def)

text \<open>
  Claim C9. The comparison of two States raises the dimensionality-mismatch error
  (\<^verbatim>\<open>ValueError\<close>) exactly when the two States have different numbers of parameters;
  for States of equal arity it raises nothing and returns a truth value.
\<close>

theorem arity_mismatch_iff:
  "(same_except_burnup_time state1 state2 = Inl ValueError) = (length state1 \<noteq> length state2) \<and>
   (length state1 = length state2 \<longrightarrow> (\<exists>b. same_except_burnup_time state1 state2 = Inr b))"
  by (simp add: same_except_burnup_time_def)

theorem arity_mismatch_iff_witness:
  "length (state_of 4 0) = length (state_of 4 100) \<and>
   same_except_burnup_time (state_of 4 0) (state_of 4 100) = Inr True \<and>
   same_except_burnup_time (state_of 4 0) [(''enrichment'', 4)] = Inl ValueError"
  using arity_mismatch_iff[of "state_of 4 0" "state_of 4 100"]
        arity_mismatch_iff[of "state_of 4 0" "[(''enrichment'', 4)]"]
  by (simp add: same_except_burnup_time_def state_of_def)

section \<open>Properties of the transport stage\<close>

lemma first_statepoint_append:
  "\<not> startswith name ''statepoint'' \<Longrightarrow>
   first_statepoint d (names @ [name]) = first_statepoint d names"
  by (induction names) auto

lemma find_statepoint_touch:
  "\<not> startswith name ''statepoint'' \<Longrightarrow>
   find_statepoint d (touch d name fs) = find_statepoint d fs"
  by (auto simp: find_statepoint_def touch_def first_statepoint_append split: option.splits)

lemma spfile_touch: "spfile (touch d name fs) = spfile fs"
  by (simp add: touch_def split: option.splits)

lemma first_statepoint_None:
  "(first_statepoint d names = None) = (\<forall>f \<in> set names. \<not> startswith f ''statepoint'')"
  by (induction names) auto

lemma first_statepoint_Some:
  "(\<exists>p. first_statepoint d names = Some p) = (\<exists>f \<in> set names. startswith f ''statepoint'')"
  by (induction names) auto

lemma find_statepoint_has:
  "find_statepoint d fs =
     (case listdir fs d of None \<Rightarrow> Inl IOError
      | Some names \<Rightarrow> Inr (first_statepoint d names))"
  by (simp add: find_statepoint_def)

lemma has_statepoint_iff:
  "has_statepoint fs d = (\<exists>p. find_statepoint d fs = Inr (Some p))"
  using first_statepoint_Some[of d]
  by (simp add: has_statepoint_def find_statepoint_def split: option.splits)

lemma find_statepoint_makedirs:
  "find_statepoint d (disk (makedirs d e)) =
     Inr (case listdir (disk e) d of None \<Rightarrow> None | Some names \<Rightarrow> first_statepoint d names)"
  by (simp add: makedirs_def find_statepoint_def split: option.splits)

lemma makedirs_frame [simp]:
  "statelibs (makedirs d e) = statelibs e"
  "fuel_material (makedirs d e) = fuel_material e"
  "src_phi_g (makedirs d e) = src_phi_g e"
  "trace (makedirs d e) = trace e"
  "spfile (disk (makedirs d e)) = spfile (disk e)"
  by (simp_all add: makedirs_def split: option.splits)

lemma make_omc_input_frame [simp]:
  "statelibs (make_omc_input X st e) = statelibs e"
  "fuel_material (make_omc_input X st e) = fuel_material e"
  "src_phi_g (make_omc_input X st e) = src_phi_g e"
  "trace (make_omc_input X st e) = trace e @ [OmcInput (pwd X st ''omc'') (fuel_material e)]"
  by (simp_all add: make_omc_input_def Let_def)

lemma find_statepoint_make_omc_input:
  "find_statepoint (pwd X st ''omc'') (disk (make_omc_input X st e)) =
   find_statepoint (pwd X st ''omc'') (disk e)"
  by (simp add: make_omc_input_def Let_def find_statepoint_touch startswith_def)

lemma find_statepoint_inputs:
  "find_statepoint (pwd X st ''omc'')
     (disk (make_omc_input X st (makedirs (pwd X st ''omc'') e))) =
   Inr (case listdir (disk e) (pwd X st ''omc'') of
          None \<Rightarrow> None | Some names \<Rightarrow> first_statepoint (pwd X st ''omc'') names)"
  by (simp add: find_statepoint_make_omc_input find_statepoint_makedirs)

lemma has_statepoint_first:
  "has_statepoint fs d =
   ((case listdir fs d of None \<Rightarrow> None | Some names \<Rightarrow> first_statepoint d names) \<noteq> None)"
  using first_statepoint_Some[of d]
  by (simp add: has_statepoint_def split: option.splits)

lemma ds_loop_frame:
  "ds_loop X ts e = (r, e') \<Longrightarrow>
   statelibs e' = statelibs e \<and> fuel_material e' = fuel_material e \<and>
   disk e' = disk e \<and> trace e' = trace e"
  by (induction X ts e rule: ds_loop.induct) (auto split: sum.splits)

lemma parse_statepoint_frame:
  assumes "parse_statepoint X path e = (r, e')"
  shows "statelibs e' = statelibs e \<and> fuel_material e' = fuel_material e \<and>
         disk e' = disk e \<and> trace e' = trace e"
  using assms
  by (auto simp: parse_statepoint_def split: option.splits prod.splits sum.splits list.splits
           dest: ds_loop_frame)

lemma parse_and_prepare_frame:
  assumes "parse_and_prepare X path e = (r, e')"
  shows "statelibs e' = statelibs e \<and> fuel_material e' = fuel_material e \<and>
         disk e' = disk e \<and> trace e' = trace e"
  using assms
  by (auto simp: parse_and_prepare_def split: prod.splits sum.splits
           dest: parse_statepoint_frame)

lemma openmc_trace:
  "trace (snd (openmc X st e)) =
     trace e @ [OmcInput (pwd X st ''omc'') (fuel_material e)] @
     (if has_statepoint (disk e) (pwd X st ''omc'') then [] else [OmcRun (pwd X st ''omc'')])"
proof -
  let ?d = "pwd X st ''omc''"
  let ?e1 = "make_omc_input X st (makedirs ?d e)"
  have fs: "find_statepoint ?d (disk ?e1) =
      Inr (case listdir (disk e) ?d of None \<Rightarrow> None | Some names \<Rightarrow> first_statepoint ?d names)"
    by (rule find_statepoint_inputs)
  have t1: "trace ?e1 = trace e @ [OmcInput ?d (fuel_material e)]" by simp
  show ?thesis
  proof (cases "has_statepoint (disk e) ?d")
    case True
    then obtain p where p: "find_statepoint ?d (disk ?e1) = Inr (Some p)"
      using fs by (auto simp: has_statepoint_first)
    obtain r e' where pp: "parse_and_prepare X (Some p) ?e1 = (r, e')" by (cases "parse_and_prepare X (Some p) ?e1")
    have "openmc X st e = (r, e')" using p pp by (simp add: openmc_def Let_def)
    moreover have "trace e' = trace ?e1" using parse_and_prepare_frame[OF pp] by simp
    ultimately show ?thesis using True t1 by simp
  next
    case False
    then have p: "find_statepoint ?d (disk ?e1) = Inr None"
      using fs by (auto simp: has_statepoint_first)
    obtain ok fs' where ex: "openmc_exe X ?d st (fuel_material ?e1) (disk ?e1) = (ok, fs')"
      by (cases "openmc_exe X ?d st (fuel_material ?e1) (disk ?e1)")
    let ?e2 = "?e1\<lparr>disk := fs', trace := trace ?e1 @ [OmcRun ?d]\<rparr>"
    have "trace (snd (openmc X st e)) = trace ?e2"
    proof (cases ok)
      case False
      then show ?thesis using p ex by (simp add: openmc_def Let_def)
    next
      case True
      show ?thesis
      proof (cases "find_statepoint ?d (disk ?e2)")
        case (Inl err)
        then show ?thesis using p ex True by (simp add: openmc_def Let_def)
      next
        case (Inr path)
        obtain r e' where pp: "parse_and_prepare X path ?e2 = (r, e')" by (cases "parse_and_prepare X path ?e2")
        have "openmc X st e = (r, e')" using p ex True Inr pp by (simp add: openmc_def Let_def)
        moreover have "trace e' = trace ?e2" using parse_and_prepare_frame[OF pp] by simp
        ultimately show ?thesis by simp
      qed
    qed
    then show ?thesis using False t1 by simp
  qed
qed

lemma openmc_frame:
  assumes "openmc X st e = (r, e')"
  shows "statelibs e' = statelibs e \<and> fuel_material e' = fuel_material e"
proof -
  let ?d = "pwd X st ''omc''"
  let ?e1 = "make_omc_input X st (makedirs ?d e)"
  have f1: "statelibs ?e1 = statelibs e \<and> fuel_material ?e1 = fuel_material e" by simp
  show ?thesis
    using assms f1
    by (auto simp: openmc_def Let_def split: sum.splits option.splits prod.splits if_splits
             dest!: parse_and_prepare_frame)
qed

section \<open>Properties of the memoised solve\<close>

lemma origen_frame:
  assumes "origen X st xs t phi e = (r, e')"
  shows "statelibs e' = statelibs e \<and> fuel_material e' = fuel_material e \<and>
         (\<exists>call. trace e' = trace e @
            [OrigenInput (pwd X st ''origen'') (fuel_material e) t (np_sum X phi),
             OrigenRun (pwd X st ''origen'') call] \<and>
            (case r of
               Inl err \<Rightarrow> True
             | Inr m \<Rightarrow> \<exists>mats. origen_exe X call st (fuel_material e) t (np_sum X phi) = Inr mats \<and>
                          mats \<noteq> [] \<and> m = last mats))"
  using assms
  by (auto simp: origen_def make_origen_input_def Let_def split: sum.splits if_splits)

lemma generate_hit:
  "statelibs e st = Some (k, phi, xs) \<Longrightarrow> generate X st t e = (Inr (Triple k phi xs), e)"
  by (simp add: generate_def)

lemma generate_miss:
  assumes "statelibs e st = None"
  shows "generate X st t e =
     (case openmc X st e of
        (Inl err, e1) \<Rightarrow> (Inl err, e1)
      | (Inr (k, phi_g, xs), e1) \<Rightarrow>
          (case origen X st xs t phi_g (e1\<lparr>statelibs := (statelibs e1)(st \<mapsto> (k, phi_g, xs))\<rparr>) of
             (Inl err, e3) \<Rightarrow> (Inl err, e3)
           | (Inr mat, e3) \<Rightarrow> (Inr (Quad k phi_g xs mat), e3\<lparr>fuel_material := mat\<rparr>)))"
  using assms by (simp add: generate_def Let_def split: prod.splits sum.splits)

lemma omc_inputs_append: "omc_inputs (xs @ ys) = omc_inputs xs @ omc_inputs ys"
  by (induction xs rule: omc_inputs.induct) simp_all

lemma origen_inputs_append: "origen_inputs (xs @ ys) = origen_inputs xs @ origen_inputs ys"
  by (induction xs rule: origen_inputs.induct) simp_all

lemma solver_runs_append: "solver_runs (xs @ ys) = solver_runs xs + solver_runs ys"
  by (induction xs rule: solver_runs.induct) simp_all

lemma new_events_append: "trace e' = trace e @ new \<Longrightarrow> new_events e e' = new"
  by (simp add: new_events_def)

lemma generate_quad:
  assumes "generate X st t e = (Inr (Quad k phi xs m), e')"
  shows "statelibs e st = None \<and> fuel_material e' = m \<and>
         statelibs e' = (statelibs e)(st \<mapsto> (k, phi, xs)) \<and>
         (\<exists>new call mats. trace e' = trace e @ new \<and>
            omc_inputs new = [fuel_material e] \<and>
            origen_inputs new = [(fuel_material e, t)] \<and>
            origen_exe X call st (fuel_material e) t (np_sum X phi) = Inr mats \<and>
            mats \<noteq> [] \<and> m = last mats)"
proof -
  have none: "statelibs e st = None"
    using assms by (cases "statelibs e st") (auto simp: generate_def)
  obtain r1 e1 where om: "openmc X st e = (r1, e1)" by (cases "openmc X st e")
  from assms none om obtain k1 phi1 xs1 where r1: "r1 = Inr (k1, phi1, xs1)"
    by (cases r1) (auto simp: generate_miss)
  let ?e2 = "e1\<lparr>statelibs := (statelibs e1)(st \<mapsto> (k1, phi1, xs1))\<rparr>"
  obtain r3 e3 where og: "origen X st xs1 t phi1 ?e2 = (r3, e3)"
    by (cases "origen X st xs1 t phi1 ?e2")
  from assms none om r1 og have r3: "r3 = Inr m" and eqs: "k1 = k" "phi1 = phi" "xs1 = xs"
    and e': "e' = e3\<lparr>fuel_material := m\<rparr>"
    by (cases r3; auto simp: generate_miss)+
  have f1: "statelibs e1 = statelibs e" "fuel_material e1 = fuel_material e"
    using openmc_frame[OF om] by simp_all
  have t1: "trace e1 = trace e @ [OmcInput (pwd X st ''omc'') (fuel_material e)] @
     (if has_statepoint (disk e) (pwd X st ''omc'') then [] else [OmcRun (pwd X st ''omc'')])"
    using openmc_trace[of X st e] om by simp
  from origen_frame[OF og] r3 obtain call mats where
    f3: "statelibs e3 = statelibs ?e2" "fuel_material e3 = fuel_material ?e2"
    and t3: "trace e3 = trace ?e2 @
            [OrigenInput (pwd X st ''origen'') (fuel_material ?e2) t (np_sum X phi1),
             OrigenRun (pwd X st ''origen'') call]"
    and ex: "origen_exe X call st (fuel_material ?e2) t (np_sum X phi1) = Inr mats"
       "mats \<noteq> []" "m = last mats"
    by auto
  let ?new = "[OmcInput (pwd X st ''omc'') (fuel_material e)] @
     (if has_statepoint (disk e) (pwd X st ''omc'') then [] else [OmcRun (pwd X st ''omc'')]) @
     [OrigenInput (pwd X st ''origen'') (fuel_material e) t (np_sum X phi),
      OrigenRun (pwd X st ''origen'') call]"
  have tr: "trace e' = trace e @ ?new"
    using t1 t3 e' f1 eqs by simp
  have oi: "omc_inputs ?new = [fuel_material e]" by simp
  have gi: "origen_inputs ?new = [(fuel_material e, t)]" by simp
  have sl: "statelibs e' = (statelibs e)(st \<mapsto> (k, phi, xs))"
    using e' f3 f1 eqs by simp
  have fm: "fuel_material e' = m" using e' by simp
  have ex': "origen_exe X call st (fuel_material e) t (np_sum X phi) = Inr mats"
    using ex(1) f1 eqs by simp
  show ?thesis
    using none fm sl tr oi gi ex' ex(2,3) by blast
qed

section \<open>Properties of the run loop\<close>

lemma transmute_time_intervals:
  assumes "transmute_time_of st rest = Inr tt" "burn_times st = Inr t"
          "map burn_times rest = map Inr ts"
  shows "intervals (t # ts) = tt # intervals ts"
proof (cases rest)
  case Nil
  then show ?thesis using assms by (simp add: transmute_time_of_def)
next
  case (Cons nxt rest')
  then obtain t1 ts' where ts: "ts = t1 # ts'" "burn_times nxt = Inr t1"
    using assms(3) by (cases ts) auto
  then show ?thesis using assms(1,2) Cons by (simp add: transmute_time_of_def)
qed

lemma run_loop_success:
  assumes "run_loop X rn lib mh e = (Inr (lib', mh'), e')"
  shows "\<exists>ms new ts. mh' = mh @ ms \<and> length ms = length rn \<and> trace e' = trace e @ new \<and>
           omc_inputs new = butlast (fuel_material e # ms) \<and>
           map fst (origen_inputs new) = butlast (fuel_material e # ms) \<and>
           fuel_material e' = last (fuel_material e # ms) \<and>
           map burn_times rn = map Inr ts \<and>
           map snd (origen_inputs new) = intervals ts \<and>
           list_all2 (solved_by X) (zip rn (origen_inputs new)) ms"
  using assms
proof (induction rn arbitrary: lib mh e)
  case Nil
  then have "mh' = mh" "e' = e" by simp_all
  then show ?case by simp
next
  case (Cons st rest)
  from Cons.prems obtain tt where tt: "transmute_time_of st rest = Inr tt"
    by (cases "transmute_time_of st rest") auto
  obtain r1 e1 where g: "generate X st tt e = (r1, e1)" by (cases "generate X st tt e")
  from Cons.prems tt g obtain k phi xs m where r1: "r1 = Inr (Quad k phi xs m)"
    by (cases r1; simp) (rename_tac b, case_tac b; simp)
  from Cons.prems tt g r1 obtain t where t: "burn_times st = Inr t"
    by (cases "burn_times st") auto
  let ?lib2 = "lib_append ''BUd'' 0 (lib_append ''NEUT_DEST'' 0
                 (lib_append ''NEUT_PROD'' 0 (lib_append ''TIME'' t lib)))"
  have rec: "run_loop X rest ?lib2 (mh @ [m]) e1 = (Inr (lib', mh'), e')"
    using Cons.prems tt g r1 t by simp
  from Cons.IH[OF rec] obtain ms' new' ts' where
    ih: "mh' = (mh @ [m]) @ ms'" "length ms' = length rest" "trace e' = trace e1 @ new'"
        "omc_inputs new' = butlast (fuel_material e1 # ms')"
        "map fst (origen_inputs new') = butlast (fuel_material e1 # ms')"
        "fuel_material e' = last (fuel_material e1 # ms')"
        "map burn_times rest = map Inr ts'"
        "map snd (origen_inputs new') = intervals ts'"
        "list_all2 (solved_by X) (zip rest (origen_inputs new')) ms'"
    by blast
  from generate_quad[OF g[unfolded r1]] obtain new1 call mats where
    q: "fuel_material e1 = m" "trace e1 = trace e @ new1"
       "omc_inputs new1 = [fuel_material e]" "origen_inputs new1 = [(fuel_material e, tt)]"
       "origen_exe X call st (fuel_material e) tt (np_sum X phi) = Inr mats"
       "mats \<noteq> []" "m = last mats"
    by blast
  have sb: "solved_by X (st, fuel_material e, tt) m"
    unfolding solved_by_def using q(5,6,7) by auto
  have iv: "intervals (t # ts') = tt # intervals ts'"
    using transmute_time_intervals[OF tt t ih(7)] .
  have c1: "mh' = mh @ (m # ms')" using ih(1) by simp
  have c2: "length (m # ms') = length (st # rest)" using ih(2) by simp
  have c3: "trace e' = trace e @ (new1 @ new')" using ih(3) q(2) by simp
  have c4: "omc_inputs (new1 @ new') = butlast (fuel_material e # m # ms')"
    using ih(4) q(1,3) by (simp add: omc_inputs_append)
  have c5: "map fst (origen_inputs (new1 @ new')) = butlast (fuel_material e # m # ms')"
    using ih(5) q(1,4) by (simp add: origen_inputs_append)
  have c6: "fuel_material e' = last (fuel_material e # m # ms')"
    using ih(6) q(1) by simp
  have c7: "map burn_times (st # rest) = map Inr (t # ts')"
    using ih(7) t by simp
  have c8: "map snd (origen_inputs (new1 @ new')) = intervals (t # ts')"
    using ih(8) q(4) iv by (simp add: origen_inputs_append)
  have c9: "list_all2 (solved_by X) (zip (st # rest) (origen_inputs (new1 @ new'))) (m # ms')"
    using ih(9) q(4) sb by (simp add: origen_inputs_append)
  show ?case
    using c1 c2 c3 c4 c5 c6 c7 c8 c9 by blast
qed

lemma intervals_length: "length (intervals ts) = length ts"
  by (induction ts rule: intervals.induct) simp_all

lemma intervals_nth: "Suc i < length ts \<Longrightarrow> intervals ts ! i = ts ! Suc i - ts ! i"
proof (induction ts arbitrary: i rule: intervals.induct)
  case (3 t0 t1 ts)
  then show ?case by (cases i) simp_all
qed simp_all

lemma intervals_last: "ts \<noteq> [] \<Longrightarrow> intervals ts ! (length ts - 1) = 0"
proof (induction ts rule: intervals.induct)
  case (3 t0 t1 ts)
  then show ?case by simp
qed simp_all

lemma generate_run_success:
  assumes "fst (generate_run X rn e) = Inr lib"
  shows "\<exists>run_lib mat_hist. run_loop X rn empty_lib [] e =
            (Inr (run_lib, mat_hist), snd (generate_run X rn e)) \<and>
          assemble X run_lib mat_hist = Inr lib"
proof -
  obtain r e1 where rl: "run_loop X rn empty_lib [] e = (r, e1)"
    by (cases "run_loop X rn empty_lib [] e")
  from assms rl obtain run_lib mat_hist where r: "r = Inr (run_lib, mat_hist)"
    by (cases r) (auto simp: generate_run_def)
  show ?thesis using assms rl r by (simp add: generate_run_def)
qed

section \<open>Properties of library generation in execute\<close>

lemma write_all_eng [simp]: "eng (write_all ws libs fname w) = eng w"
  unfolding write_all_def by (induction ws arbitrary: w) simp_all

lemma lib_loop_delivered:
  "delivered (snd (lib_loop X rc nrs w)) = delivered w"
proof (cases nrs)
  case Nil
  then show ?thesis by simp
next
  case (Cons a rest)
  obtain n rn where a: "a = (n, rn)" by (cases a)
  show ?thesis
    unfolding Cons a
    by (cases "outdirs rc") (simp_all add: engine_generate_run_def Let_def)
qed

lemma lib_loop_type_error:
  assumes "nrs \<noteq> []" "outdirs rc \<noteq> []"
  shows "fst (lib_loop X rc nrs w) = Inl TypeError"
proof -
  from assms(1) obtain n rn rest where nrs: "nrs = (n, rn) # rest" by (cases nrs) auto
  from assms(2) obtain od ods where od: "outdirs rc = od # ods" by (cases "outdirs rc") auto
  show ?thesis unfolding nrs by (simp add: od engine_generate_run_def Let_def)
qed

lemma enumerate_Nil_iff: "(enumerate n xs = []) = (xs = [])"
  by (cases xs) simp_all

section \<open>Properties of the assembled library\<close>

lemma history_length: "history nuc mats = Inr h \<Longrightarrow> length h = length mats"
  by (induction mats arbitrary: h) (auto split: option.splits sum.splits)

lemma history_nth:
  "history nuc mats = Inr h \<Longrightarrow> i < length mats \<Longrightarrow> map_of (mats ! i) nuc = Some (h ! i)"
proof (induction mats arbitrary: h i)
  case Nil
  then show ?case by simp
next
  case (Cons m mats)
  then show ?case by (cases i) (auto split: option.splits sum.splits)
qed

lemma histories_rows:
  "histories nm nucs mats = Inr hs \<Longrightarrow>
   hs = map (\<lambda>nuc. (nm nuc, projr (history nuc mats))) nucs \<and>
   (\<forall>nuc \<in> set nucs. \<exists>h. history nuc mats = Inr h)"
  by (induction nucs arbitrary: hs) (auto split: sum.splits)

lemma histories_lengths:
  assumes "histories nm nucs mats = Inr hs" "(key, h) \<in> set hs"
  shows "length h = length mats"
proof -
  from histories_rows[OF assms(1)] assms(2) obtain nuc where
    "nuc \<in> set nucs" "h = projr (history nuc mats)" "\<exists>h'. history nuc mats = Inr h'"
    by auto
  then show ?thesis using history_length by auto
qed

lemma lib_append_rows:
  "scalar_rows n lib \<Longrightarrow> dom lib = {''TIME'', ''NEUT_PROD'', ''NEUT_DEST'', ''BUd''} \<Longrightarrow>
   scalar_rows (Suc n)
     (lib_append ''BUd'' b (lib_append ''NEUT_DEST'' d
        (lib_append ''NEUT_PROD'' p (lib_append ''TIME'' t lib)))) \<and>
   dom (lib_append ''BUd'' b (lib_append ''NEUT_DEST'' d
        (lib_append ''NEUT_PROD'' p (lib_append ''TIME'' t lib)))) =
     {''TIME'', ''NEUT_PROD'', ''NEUT_DEST'', ''BUd''}"
proof -
  assume r: "scalar_rows n lib" and d: "dom lib = {''TIME'', ''NEUT_PROD'', ''NEUT_DEST'', ''BUd''}"
  from d obtain a b' c d' where
    v: "lib ''TIME'' = Some a" "lib ''NEUT_PROD'' = Some b'" "lib ''NEUT_DEST'' = Some c"
       "lib ''BUd'' = Some d'"
    by (metis domD insertCI)
  have l: "length a = n" "length b' = n" "length c = n" "length d' = n"
    using r v by (auto simp: scalar_rows_def)
  have nd: "\<And>key. key \<notin> {''TIME'', ''NEUT_PROD'', ''NEUT_DEST'', ''BUd''} \<Longrightarrow> lib key = None"
    using d by blast
  let ?lib' = "lib_append ''BUd'' b (lib_append ''NEUT_DEST'' d
        (lib_append ''NEUT_PROD'' p (lib_append ''TIME'' t lib)))"
  have eq: "?lib' = lib(''TIME'' \<mapsto> a @ [t], ''NEUT_PROD'' \<mapsto> b' @ [p],
                     ''NEUT_DEST'' \<mapsto> c @ [d], ''BUd'' \<mapsto> d' @ [b])"
    using v by (simp add: lib_append_def)
  have "scalar_rows (Suc n) ?lib'"
    unfolding eq scalar_rows_def using l nd by (auto split: if_splits)
  moreover have "dom ?lib' = {''TIME'', ''NEUT_PROD'', ''NEUT_DEST'', ''BUd''}"
    unfolding eq using d by auto
  ultimately show ?thesis by simp
qed

lemma run_loop_rows:
  assumes "run_loop X rn lib mh e = (Inr (lib', mh'), e')"
          "scalar_rows n lib" "dom lib = {''TIME'', ''NEUT_PROD'', ''NEUT_DEST'', ''BUd''}"
  shows "scalar_rows (n + length rn) lib'"
  using assms
proof (induction rn arbitrary: lib mh e n)
  case Nil
  then show ?case by simp
next
  case (Cons st rest)
  from Cons.prems(1) obtain tt where tt: "transmute_time_of st rest = Inr tt"
    by (cases "transmute_time_of st rest") auto
  obtain r1 e1 where g: "generate X st tt e = (r1, e1)" by (cases "generate X st tt e")
  from Cons.prems(1) tt g obtain k phi xs m where r1: "r1 = Inr (Quad k phi xs m)"
    by (cases r1; simp) (rename_tac b, case_tac b; simp)
  from Cons.prems(1) tt g r1 obtain t where t: "burn_times st = Inr t"
    by (cases "burn_times st") auto
  let ?lib2 = "lib_append ''BUd'' 0 (lib_append ''NEUT_DEST'' 0
                 (lib_append ''NEUT_PROD'' 0 (lib_append ''TIME'' t lib)))"
  have rec: "run_loop X rest ?lib2 (mh @ [m]) e1 = (Inr (lib', mh'), e')"
    using Cons.prems(1) tt g r1 t by simp
  from lib_append_rows[OF Cons.prems(2,3)]
  have "scalar_rows (Suc n) ?lib2" "dom ?lib2 = {''TIME'', ''NEUT_PROD'', ''NEUT_DEST'', ''BUd''}"
    by simp_all
  from Cons.IH[OF rec this] show ?case by simp
qed

lemma empty_lib_rows:
  "scalar_rows 0 empty_lib" "dom empty_lib = {''TIME'', ''NEUT_PROD'', ''NEUT_DEST'', ''BUd''}"
  by (auto simp: scalar_rows_def empty_lib_def split: if_splits)

lemma assemble_rows:
  assumes "assemble X run_lib mat_hist = Inr lib" "scalar_rows (length mat_hist) run_lib"
  shows "scalar_rows (length mat_hist) lib"
proof -
  from assms(1) obtain hs where
    hs: "histories (nucname X) (all_nucs mat_hist) mat_hist = Inr hs"
    and lib: "lib = run_lib ++ map_of (rev hs)"
    by (auto simp: assemble_def split: sum.splits)
  show ?thesis
    unfolding scalar_rows_def
  proof (intro allI impI)
    fix key h assume "lib key = Some h"
    then consider "map_of (rev hs) key = Some h" | "run_lib key = Some h"
      unfolding lib by (auto simp: map_add_Some_iff)
    then show "length h = length mat_hist"
    proof cases
      case 1
      then have "(key, h) \<in> set hs" using map_of_SomeD by fastforce
      then show ?thesis using histories_lengths[OF hs] by simp
    next
      case 2
      then show ?thesis using assms(2) by (simp add: scalar_rows_def)
    qed
  qed
qed

lemma histories_keys:
  "histories nm nucs mats = Inr hs \<Longrightarrow> map fst hs = map nm nucs"
  by (induction nucs arbitrary: hs) (auto split: sum.splits)

lemma histories_member:
  "histories nm nucs mats = Inr hs \<Longrightarrow> nuc \<in> set nucs \<Longrightarrow>
   \<exists>h. history nuc mats = Inr h \<and> (nm nuc, h) \<in> set hs"
  by (induction nucs arbitrary: hs) (auto split: sum.splits)

lemma assemble_nuclide:
  assumes "assemble X run_lib mat_hist = Inr lib" "nuc \<in> set (all_nucs mat_hist)"
          "inj_on (nucname X) (set (all_nucs mat_hist))"
  shows "\<exists>h. history nuc mat_hist = Inr h \<and> lib (nucname X nuc) = Some h"
proof -
  from assms(1) obtain hs where
    hs: "histories (nucname X) (all_nucs mat_hist) mat_hist = Inr hs"
    and lib: "lib = run_lib ++ map_of (rev hs)"
    by (auto simp: assemble_def split: sum.splits)
  from histories_member[OF hs assms(2)] obtain h where
    h: "history nuc mat_hist = Inr h" "(nucname X nuc, h) \<in> set hs" by blast
  have "distinct (all_nucs mat_hist)" by (simp add: all_nucs_def)
  then have "distinct (map fst hs)"
    using histories_keys[OF hs] assms(3) by (simp add: distinct_map)
  then have "distinct (map fst (rev hs))" by (simp add: rev_map[symmetric])
  then have "map_of (rev hs) (nucname X nuc) = Some h"
    using h(2) by (simp add: map_of_eq_Some_iff)
  then show ?thesis using h(1) lib by simp
qed

section \<open>Properties of the transmutation matrix\<close>

lemma tm_entry_other:
  "key \<noteq> nm (fst p) \<Longrightarrow> tm_entry nm thr i p tm key = tm key"
  by (simp add: tm_entry_def split: option.splits)

lemma fold_tm_entry_absent:
  "key \<notin> nm ` fst ` set mat \<Longrightarrow> fold (tm_entry nm thr i) mat tm key = tm key"
  by (induction mat arbitrary: tm) (simp_all add: tm_entry_other)

lemma fold_tm_entry_present:
  assumes "distinct (map fst mat)" "inj_on nm (insert nuc (fst ` set mat))"
          "map_of mat nuc = Some v"
  shows "fold (tm_entry nm thr i) mat tm (nm nuc) =
     (case tm (nm nuc) of
        Some r \<Rightarrow> Some (r @ [v * 1000])
      | None \<Rightarrow> if v > thr then Some (replicate i 0 @ [v * 1000]) else None)"
  using assms
proof (induction mat arbitrary: tm)
  case Nil
  then show ?case by simp
next
  case (Cons p rest)
  show ?case
  proof (cases "fst p = nuc")
    case True
    then have v: "snd p = v" using Cons.prems(3) by (cases p) simp
    have "nuc \<notin> fst ` set rest" using Cons.prems(1) True by auto
    then have "nm nuc \<notin> nm ` fst ` set rest"
      using Cons.prems(2) by (auto simp: inj_on_def)
    then have "fold (tm_entry nm thr i) rest (tm_entry nm thr i p tm) (nm nuc) =
               tm_entry nm thr i p tm (nm nuc)"
      by (rule fold_tm_entry_absent)
    moreover have "tm_entry nm thr i p tm (nm nuc) =
       (case tm (nm nuc) of
          Some r \<Rightarrow> Some (r @ [v * 1000])
        | None \<Rightarrow> if v > thr then Some (replicate i 0 @ [v * 1000]) else None)"
      using True v by (simp add: tm_entry_def split: option.splits)
    moreover have "fold (tm_entry nm thr i) (p # rest) tm (nm nuc) =
               fold (tm_entry nm thr i) rest (tm_entry nm thr i p tm) (nm nuc)"
      by simp
    ultimately show ?thesis by (simp only:)
  next
    case False
    then have ne: "nm nuc \<noteq> nm (fst p)" using Cons.prems(2) by (auto simp: inj_on_def)
    have m: "map_of rest nuc = Some v" using Cons.prems(3) False by (cases p) (auto split: if_splits)
    have d: "distinct (map fst rest)" using Cons.prems(1) by simp
    have i: "inj_on nm (insert nuc (fst ` set rest))"
      using Cons.prems(2) by (rule inj_on_subset) auto
    show ?thesis
      using Cons.IH[OF d i m, of "tm_entry nm thr i p tm"] ne
      by (simp add: tm_entry_other)
  qed
qed

lemma tm_loop_track:
  assumes "\<forall>m \<in> set mats. distinct (map fst m) \<and> inj_on nm (insert nuc (fst ` set m))"
  shows "tm_loop nm thr i mats tm (nm nuc) =
         track thr i (map (\<lambda>m. map_of m nuc) mats) (tm (nm nuc))"
  using assms
proof (induction mats arbitrary: i tm)
  case Nil
  then show ?case by simp
next
  case (Cons m mats)
  have d: "distinct (map fst m)" and inj: "inj_on nm (insert nuc (fst ` set m))"
    using Cons.prems by simp_all
  have IH: "\<And>tm'. tm_loop nm thr (Suc i) mats tm' (nm nuc) =
         track thr (Suc i) (map (\<lambda>m. map_of m nuc) mats) (tm' (nm nuc))"
    using Cons.IH Cons.prems by simp
  show ?case
  proof (cases "map_of m nuc")
    case None
    then have "nuc \<notin> fst ` set m" by (simp add: map_of_eq_None_iff)
    then have "nm nuc \<notin> nm ` fst ` set m" using inj by (auto simp: inj_on_def)
    then have "fold (tm_entry nm thr i) m tm (nm nuc) = tm (nm nuc)"
      by (rule fold_tm_entry_absent)
    then show ?thesis using None IH by simp
  next
    case (Some v)
    note f = fold_tm_entry_present[OF d inj Some, of thr i tm]
    show ?thesis
      by (cases "tm (nm nuc)") (simp_all add: Some IH f)
  qed
qed

lemma track_low:
  "list_all (\<lambda>v. case v of None \<Rightarrow> True | Some x \<Rightarrow> x \<le> thr) vs \<Longrightarrow>
   track thr i vs None = None"
  by (induction vs arbitrary: i) (auto split: option.splits)

lemma track_row:
  "list_all (\<lambda>v. v \<noteq> None) vs \<Longrightarrow>
   track thr i vs (Some r) = Some (r @ map (\<lambda>v. the v * 1000) vs)"
  by (induction vs arbitrary: i r) auto

lemma track_append:
  "track thr i (vs @ ws) row = track thr (i + length vs) ws (track thr i vs row)"
proof (induction vs arbitrary: i row)
  case Nil
  then show ?case by simp
next
  case (Cons v vs)
  show ?case
  proof (cases v)
    case None
    then show ?thesis using Cons[of "i + 1" row] by simp
  next
    case (Some x)
    then show ?thesis
      using Cons[of "i + 1"] by (cases row) simp_all
  qed
qed

lemma track_first_exceeding:
  assumes "k < length vs" "vs ! k = Some vk" "vk > thr"
          "list_all (\<lambda>v. case v of None \<Rightarrow> True | Some x \<Rightarrow> x \<le> thr) (take k vs)"
          "list_all (\<lambda>v. v \<noteq> None) (drop k vs)"
  shows "track thr 0 vs None = Some (replicate k 0 @ map (\<lambda>v. the v * 1000) (drop k vs))"
proof -
  have dk: "drop k vs = Some vk # drop (Suc k) vs"
    using assms(1,2) by (metis Cons_nth_drop_Suc)
  have rest: "list_all (\<lambda>v. v \<noteq> None) (drop (Suc k) vs)"
    using assms(5) dk by simp
  have "vs = take k vs @ drop k vs" by simp
  then have "track thr 0 vs None =
      track thr (0 + length (take k vs)) (drop k vs) (track thr 0 (take k vs) None)"
    using track_append[of thr 0 "take k vs" "drop k vs" None] by simp
  also have "\<dots> = track thr k (drop k vs) None"
    using assms(1) track_low[OF assms(4)] by simp
  also have "\<dots> = track thr (k + 1) (drop (Suc k) vs) (Some (replicate k 0 @ [vk * 1000]))"
    using dk assms(3) by simp
  also have "\<dots> = Some ((replicate k 0 @ [vk * 1000]) @
                       map (\<lambda>v. the v * 1000) (drop (Suc k) vs))"
    using track_row[OF rest] by simp
  finally show ?thesis using dk by simp
qed

lemma trans_matrix_backfill:
  assumes wf: "list_all (\<lambda>m. distinct (map fst m) \<and> inj_on nm (insert nuc (fst ` set m))) mats"
      and k: "k < length mats" and vk: "map_of (mats ! k) nuc = Some vk" "vk > thr"
      and low: "list_all (\<lambda>m. case map_of m nuc of None \<Rightarrow> True | Some x \<Rightarrow> x \<le> thr)
                  (take k mats)"
      and pres: "list_all (\<lambda>m. map_of m nuc \<noteq> None) (drop k mats)"
  shows "trans_matrix_of nm thr mats (nm nuc) =
           Some (replicate k 0 @ map (\<lambda>m. the (map_of m nuc) * 1000) (drop k mats))"
proof -
  let ?vs = "map (\<lambda>m. map_of m nuc) mats"
  have t: "trans_matrix_of nm thr mats (nm nuc) = track thr 0 ?vs None"
    using tm_loop_track[of mats nm nuc thr 0 Map.empty] wf
    by (simp add: trans_matrix_of_def list_all_iff)
  have a: "k < length ?vs" using k by simp
  have b: "?vs ! k = Some vk" using k vk(1) by simp
  have c: "list_all (\<lambda>v. case v of None \<Rightarrow> True | Some x \<Rightarrow> x \<le> thr) (take k ?vs)"
    using low by (simp add: take_map list_all_iff)
  have d: "list_all (\<lambda>v. v \<noteq> None) (drop k ?vs)"
    using pres by (simp add: drop_map list_all_iff)
  show ?thesis
    unfolding t track_first_exceeding[OF a b vk(2) c d]
    by (simp add: drop_map)
qed

section \<open>The claims about the engine\<close>

lemma returns_iff: "returns p = (\<exists>v. fst p = Inr v)"
  by (cases "fst p") (simp_all add: returns_def)









lemma openmc_reuse:
  assumes "listdir (disk e) (pwd X st ''omc'') = Some names"
          "first_statepoint (pwd X st ''omc'') names = Some p"
  shows "openmc X st e = parse_and_prepare X (Some p) (make_omc_input X st e)"
proof -
  have m: "makedirs (pwd X st ''omc'') e = e" using assms(1) by (simp add: makedirs_def)
  have "find_statepoint (pwd X st ''omc'') (disk e) = Inr (Some p)"
    using assms by (simp add: find_statepoint_def)
  then have "find_statepoint (pwd X st ''omc'') (disk (make_omc_input X st e)) = Inr (Some p)"
    by (simp only: find_statepoint_make_omc_input)
  then show ?thesis by (simp add: openmc_def Let_def m)
qed

text \<open>
  Claim C8. The transport stage writes its input and then launches the external
  transport solver exactly when no statepoint artifact exists in the working directory
  of the State; when one exists, no solver process is launched and the first such
  artifact is the one parsed.
\<close>

theorem transport_solver_iff_no_artifact:
  "new_events e (snd (openmc X st e)) =
     OmcInput (pwd X st ''omc'') (fuel_material e) #
     (if has_statepoint (disk e) (pwd X st ''omc'') then [] else [OmcRun (pwd X st ''omc'')]) \<and>
   (OmcRun (pwd X st ''omc'') \<in> set (new_events e (snd (openmc X st e)))) =
     (\<not> has_statepoint (disk e) (pwd X st ''omc'')) \<and>
   solver_runs (new_events e (snd (openmc X st e))) =
     (if has_statepoint (disk e) (pwd X st ''omc'') then 0 else 1) \<and>
   (\<forall>names p. listdir (disk e) (pwd X st ''omc'') = Some names \<and>
       first_statepoint (pwd X st ''omc'') names = Some p \<longrightarrow>
       openmc X st e = parse_and_prepare X (Some p) (make_omc_input X st e))"
proof -
  have "new_events e (snd (openmc X st e)) =
     OmcInput (pwd X st ''omc'') (fuel_material e) #
     (if has_statepoint (disk e) (pwd X st ''omc'') then [] else [OmcRun (pwd X st ''omc'')])"
    using new_events_append[OF openmc_trace[of X st e]] by simp
  then show ?thesis using openmc_reuse by auto
qed

theorem transport_solver_iff_no_artifact_witness:
  "\<not> has_statepoint (disk fresh_engine) (pwd stub_ext (state_of 4 0) ''omc'') \<and>
   solver_runs (new_events fresh_engine (snd (openmc stub_ext (state_of 4 0) fresh_engine))) = 1 \<and>
   has_statepoint (disk after_first_solve) (pwd stub_ext (state_of 4 0) ''omc'') \<and>
   solver_runs (new_events after_first_solve
      (snd (openmc stub_ext (state_of 4 0) after_first_solve))) = 0"
proof -
  have a: "\<not> has_statepoint (disk fresh_engine) (pwd stub_ext (state_of 4 0) ''omc'')"
    by code_simp
  have b: "has_statepoint (disk after_first_solve) (pwd stub_ext (state_of 4 0) ''omc'')"
    by code_simp
  show ?thesis
    using a b transport_solver_iff_no_artifact[of fresh_engine stub_ext "state_of 4 0"]
      transport_solver_iff_no_artifact[of after_first_solve stub_ext "state_of 4 0"]
    by simp
qed

text \<open>
  Claim C2. The first call of \<^verbatim>\<open>generate\<close> for a State performs the two-stage solve
  and stores the transport result under the State. A later call for the same State
  invokes no solver and leaves the engine as it is, but it returns the stored 3-tuple,
  which is not what the first call returned: the material is missing.
\<close>

theorem cache_hit_drops_material:
  assumes "fst (generate X st t e) = Inr (Quad k phi xs m)"
  shows "statelibs e st = None \<and>
         statelibs (snd (generate X st t e)) st = Some (k, phi, xs) \<and>
         generate X st t' (snd (generate X st t e)) =
           (Inr (Triple k phi xs), snd (generate X st t e)) \<and>
         fst (generate X st t' (snd (generate X st t e))) \<noteq> fst (generate X st t e)"
proof -
  have g: "generate X st t e = (Inr (Quad k phi xs m), snd (generate X st t e))"
    using assms by (simp add: prod_eq_iff)
  from generate_quad[OF g] have
    n: "statelibs e st = None" and
    s: "statelibs (snd (generate X st t e)) st = Some (k, phi, xs)"
    by simp_all
  show ?thesis using n s generate_hit[OF s] assms by simp
qed

theorem cache_hit_drops_material_witness:
  "fst (generate stub_ext (state_of 4 0) 100 fresh_engine) =
     Inr (Quad 1 [Fin (3 / 4), Fin (1 / 4)] [] [(922350, 99 / 100)]) \<and>
   fst (generate stub_ext (state_of 4 0) 100 after_first_solve) =
     Inr (Triple 1 [Fin (3 / 4), Fin (1 / 4)] []) \<and>
   raised (generate_run stub_ext [state_of 4 0, state_of 4 0] fresh_engine) = Some ValueError"
proof -
  have a: "fst (generate stub_ext (state_of 4 0) 100 fresh_engine) =
     Inr (Quad 1 [Fin (3 / 4), Fin (1 / 4)] [] [(922350, 99 / 100)])"
    by code_simp
  have b: "raised (generate_run stub_ext [state_of 4 0, state_of 4 0] fresh_engine) = Some ValueError"
    by code_simp
  show ?thesis
    using a b cache_hit_drops_material[OF a, of 100] by (simp add: after_first_solve_def)
qed

text \<open>
  Claim C4, as amended. A call of \<^verbatim>\<open>generate\<close> that raises was a cache miss. If the
  transport stage raised, the cache is unchanged, so a retry attempts the solve again.
  If the transport stage returned and the transmutation stage raised, the cache has
  gained the entry of this State, holding the transport result.
\<close>

theorem failed_solve_cache:
  assumes "fst (generate X st t e) = Inl err"
  shows "statelibs e st = None \<and>
         (case fst (openmc X st e) of
            Inl err' \<Rightarrow> statelibs (snd (generate X st t e)) = statelibs e
          | Inr r \<Rightarrow> statelibs (snd (generate X st t e)) = (statelibs e)(st \<mapsto> r))"
proof -
  have none: "statelibs e st = None"
    using assms by (cases "statelibs e st") (auto simp: generate_def)
  obtain r1 e1 where om: "openmc X st e = (r1, e1)" by (cases "openmc X st e")
  have f1: "statelibs e1 = statelibs e" using openmc_frame[OF om] by simp
  show ?thesis
  proof (cases r1)
    case (Inl err')
    then show ?thesis using none om f1 by (simp add: generate_miss)
  next
    case (Inr r)
    obtain k phi xs where r: "r = (k, phi, xs)" by (cases r)
    let ?e2 = "e1\<lparr>statelibs := (statelibs e1)(st \<mapsto> (k, phi, xs))\<rparr>"
    obtain r3 e3 where og: "origen X st xs t phi ?e2 = (r3, e3)"
      by (cases "origen X st xs t phi ?e2")
    have f3: "statelibs e3 = statelibs ?e2" using origen_frame[OF og] by simp
    have "statelibs (snd (generate X st t e)) = (statelibs e)(st \<mapsto> r)"
      using none om Inr r og f3 f1 assms by (cases r3) (simp_all add: generate_miss)
    then show ?thesis using none om Inr by simp
  qed
qed

theorem failed_solve_cache_witness:
  "fst (generate failing_openmc_ext (state_of 4 0) 100 fresh_engine) = Inl CalledProcessError \<and>
   statelibs (snd (generate failing_openmc_ext (state_of 4 0) 100 fresh_engine)) (state_of 4 0)
     = None \<and>
   fst (generate failing_origen_ext (state_of 4 0) 100 fresh_engine) = Inl CalledProcessError"
proof -
  have a: "fst (generate failing_openmc_ext (state_of 4 0) 100 fresh_engine) =
             Inl CalledProcessError"
    by code_simp
  have b: "fst (generate failing_origen_ext (state_of 4 0) 100 fresh_engine) =
             Inl CalledProcessError"
    by code_simp
  have c: "fst (openmc failing_openmc_ext (state_of 4 0) fresh_engine) = Inl CalledProcessError"
    by code_simp
  have d: "statelibs fresh_engine (state_of 4 0) = None" by (simp add: fresh_engine_def)
  show ?thesis
    using a b c d failed_solve_cache[OF a] failed_solve_cache[OF b] by simp
qed

theorem failed_transmutation_is_memoized:
  "fst (generate failing_origen_ext (state_of 4 0) 100 fresh_engine) = Inl CalledProcessError \<and>
   statelibs fresh_engine (state_of 4 0) = None \<and>
   statelibs (snd (generate failing_origen_ext (state_of 4 0) 100 fresh_engine)) (state_of 4 0)
     = Some (1, [Fin (3 / 4), Fin (1 / 4)], []) \<and>
   fst (generate failing_origen_ext (state_of 4 0) 100
          (snd (generate failing_origen_ext (state_of 4 0) 100 fresh_engine)))
     = Inr (Triple 1 [Fin (3 / 4), Fin (1 / 4)] [])"
  by code_simp

text \<open>
  Claim C3, as amended. In a run that \<^verbatim>\<open>generate_run\<close> builds, the material that the
  transmutation solve of step \<open>i\<close> returns (entry \<open>i\<close> of \<^verbatim>\<open>mat_hist\<close>) is the fuel
  material from which the transport input of step \<open>i + 1\<close> is rendered, each transmutation solve starts from the material
  its own step's transport input was rendered from, and the transport input of step 0 is
  rendered from the fuel material the engine holds when the build starts (the design's
  initial loading for the first run an engine builds).
\<close>

theorem material_threading:
  assumes "returns (generate_run X rn e)"
  shows "\<exists>run_lib mat_hist.
           fst (run_loop X rn empty_lib [] e) = Inr (run_lib, mat_hist) \<and>
           length mat_hist = length rn \<and>
           length (omc_inputs (new_events e (snd (generate_run X rn e)))) = length rn \<and>
           (rn \<noteq> [] \<longrightarrow>
              omc_inputs (new_events e (snd (generate_run X rn e))) ! 0 = fuel_material e) \<and>
           (\<forall>i. Suc i < length rn \<longrightarrow>
              omc_inputs (new_events e (snd (generate_run X rn e))) ! Suc i = mat_hist ! i) \<and>
           map fst (origen_inputs (new_events e (snd (generate_run X rn e)))) =
             omc_inputs (new_events e (snd (generate_run X rn e))) \<and>
           list_all2 (solved_by X)
             (zip rn (origen_inputs (new_events e (snd (generate_run X rn e))))) mat_hist"
proof -
  from assms obtain lib where "fst (generate_run X rn e) = Inr lib"
    by (auto simp: returns_iff)
  from generate_run_success[OF this] obtain run_lib mat_hist where
    rl: "run_loop X rn empty_lib [] e = (Inr (run_lib, mat_hist), snd (generate_run X rn e))"
    by blast
  let ?e' = "snd (generate_run X rn e)"
  from run_loop_success[OF rl] obtain ms new ts where
    f: "mat_hist = [] @ ms" "length ms = length rn" "trace ?e' = trace e @ new"
       "omc_inputs new = butlast (fuel_material e # ms)"
       "map fst (origen_inputs new) = butlast (fuel_material e # ms)"
       "list_all2 (solved_by X) (zip rn (origen_inputs new)) ms"
    by blast
  have ne: "new_events e ?e' = new" using f(3) by (rule new_events_append)
  have len: "length (omc_inputs new) = length rn"
    using f(2,4) by (simp add: length_butlast del: butlast.simps)
  have nth: "omc_inputs new ! i = (fuel_material e # ms) ! i" if "i < length rn" for i
    using that f(2,4) by (simp add: nth_butlast length_butlast del: butlast.simps)
  have z: "rn \<noteq> [] \<longrightarrow> omc_inputs new ! 0 = fuel_material e"
    using nth[of 0] by simp
  have s: "\<forall>i. Suc i < length rn \<longrightarrow> omc_inputs new ! Suc i = ms ! i"
    using nth by simp
  have "fst (run_loop X rn empty_lib [] e) = Inr (run_lib, ms)"
    using rl f(1) by simp
  then show ?thesis
    using f(2,4,5,6) len z s unfolding ne by auto
qed

theorem material_threading_witness:
  "returns (generate_run stub_ext run_a fresh_engine) \<and>
   omc_inputs (new_events fresh_engine (snd (generate_run stub_ext run_a fresh_engine))) =
     [[(922350, 1)], [(922350, 99 / 100)], [(922350, 9801 / 10000)]] \<and>
   fuel_material fresh_engine = [(922350, 1)]"
proof -
  have h: "returns (generate_run stub_ext run_a fresh_engine)" by code_simp
  have c: "omc_inputs (new_events fresh_engine (snd (generate_run stub_ext run_a fresh_engine))) =
     [[(922350, 1)], [(922350, 99 / 100)], [(922350, 9801 / 10000)]]"
    by code_simp
  have f: "fuel_material fresh_engine = [(922350, 1)]" by (simp add: fresh_engine_def)
  show ?thesis using h c f material_threading[OF h] by simp
qed

theorem second_run_starts_from_spent_fuel:
  "returns (generate_run stub_ext [state_of 5 0] after_first_run) \<and>
   omc_inputs (new_events after_first_run
      (snd (generate_run stub_ext [state_of 5 0] after_first_run))) = [[(922350, 99 / 100)]] \<and>
   fuel_material after_first_run = [(922350, 99 / 100)] \<and>
   fuel_material fresh_engine = [(922350, 1)]"
  by code_simp

text \<open>
  Claim C5. In a run of length \<open>n\<close> that \<^verbatim>\<open>generate_run\<close> builds, the irradiation time
  handed to the solve of step \<open>i\<close> is the \<^verbatim>\<open>burn_times\<close> of state \<open>i + 1\<close> minus that of
  state \<open>i\<close> for every step but the last, and 0 for the last step.
\<close>

theorem irradiation_intervals:
  assumes "returns (generate_run X rn e)"
  shows "\<exists>ts. map burn_times rn = map Inr ts \<and>
           length (origen_inputs (new_events e (snd (generate_run X rn e)))) = length rn \<and>
           (\<forall>i. Suc i < length rn \<longrightarrow>
              snd (origen_inputs (new_events e (snd (generate_run X rn e))) ! i) =
                ts ! Suc i - ts ! i) \<and>
           (rn \<noteq> [] \<longrightarrow>
              snd (origen_inputs (new_events e (snd (generate_run X rn e))) ! (length rn - 1))
                = 0)"
proof -
  from assms obtain lib where "fst (generate_run X rn e) = Inr lib"
    by (auto simp: returns_iff)
  from generate_run_success[OF this] obtain run_lib mat_hist where
    rl: "run_loop X rn empty_lib [] e = (Inr (run_lib, mat_hist), snd (generate_run X rn e))"
    by blast
  let ?e' = "snd (generate_run X rn e)"
  from run_loop_success[OF rl] obtain ms new ts where
    f: "trace ?e' = trace e @ new" "map burn_times rn = map Inr ts"
       "map snd (origen_inputs new) = intervals ts"
    by blast
  have ne: "new_events e ?e' = new" using f(1) by (rule new_events_append)
  have lts: "length ts = length rn" using f(2) by (metis length_map)
  have len: "length (origen_inputs new) = length rn"
    using f(3) lts by (metis length_map intervals_length)
  have nth: "snd (origen_inputs new ! i) = intervals ts ! i" if "i < length rn" for i
    using that len f(3) by (metis nth_map)
  have a: "\<forall>i. Suc i < length rn \<longrightarrow> snd (origen_inputs new ! i) = ts ! Suc i - ts ! i"
    using nth intervals_nth lts by simp
  have b: "rn \<noteq> [] \<longrightarrow> snd (origen_inputs new ! (length rn - 1)) = 0"
  proof
    assume "rn \<noteq> []"
    then have "ts \<noteq> []" "length rn - 1 < length rn" using lts by auto
    then show "snd (origen_inputs new ! (length rn - 1)) = 0"
      using nth[of "length rn - 1"] intervals_last[of ts] lts by simp
  qed
  show ?thesis using f(2) len a b unfolding ne by blast
qed

theorem irradiation_intervals_witness:
  "returns (generate_run stub_ext run_a fresh_engine) \<and>
   map snd (origen_inputs (new_events fresh_engine
      (snd (generate_run stub_ext run_a fresh_engine)))) = [100, 100, 0]"
proof -
  have h: "returns (generate_run stub_ext run_a fresh_engine)" by code_simp
  have c: "map snd (origen_inputs (new_events fresh_engine
      (snd (generate_run stub_ext run_a fresh_engine)))) = [100, 100, 0]"
    by code_simp
  show ?thesis using h c irradiation_intervals[OF h] by simp
qed

text \<open>
  Claim C10. \<^verbatim>\<open>execute\<close> hands no library to any writer, whatever the run control;
  and when the grouping yields at least one run and the call of \<^verbatim>\<open>generate_run\<close> is
  reached (the run control has an output directory), \<^verbatim>\<open>execute\<close> raises
  \<^verbatim>\<open>TypeError\<close>, since it passes a second argument that \<^verbatim>\<open>generate_run\<close> does not take.
\<close>

theorem execute_never_delivers:
  "delivered (snd (execute X rc w)) = delivered w \<and>
   (\<forall>runs. group_states (states rc) = Inr runs \<and> runs \<noteq> [] \<and> outdirs rc \<noteq> [] \<longrightarrow>
      fst (execute X rc w) = Inl TypeError)"
proof -
  have d: "delivered (snd (execute X rc w)) = delivered w"
    by (cases "group_states (states rc)") (simp_all add: execute_def lib_loop_delivered)
  have t: "fst (execute X rc w) = Inl TypeError"
    if "group_states (states rc) = Inr runs" "runs \<noteq> []" "outdirs rc \<noteq> []" for runs
    using that by (simp add: execute_def lib_loop_type_error enumerate_Nil_iff)
  show ?thesis using d t by blast
qed

theorem execute_never_delivers_witness:
  "group_states (states stub_rc) = Inr [[state_of 4 0, state_of 4 100], [state_of 5 0]] \<and>
   raised (execute stub_ext stub_rc fresh_world) = Some TypeError \<and>
   length (delivered (snd (execute stub_ext stub_rc fresh_world))) = 0"
proof -
  have g: "group_states (states stub_rc) = Inr [[state_of 4 0, state_of 4 100], [state_of 5 0]]"
    by code_simp
  have o: "outdirs stub_rc \<noteq> []" by (simp add: stub_rc_def)
  have d: "delivered fresh_world = []" by (simp add: fresh_world_def)
  show ?thesis
    using g o d execute_never_delivers[of stub_ext stub_rc fresh_world]
    by (simp add: raised_def)
qed

text \<open>
  What the two assemblies do when no nuclide is missing: the rows of a library that
  \<^verbatim>\<open>generate_run\<close> returns, and the row of the transmutation matrix for a nuclide that
  is present at every step from the one at which it first exceeds the threshold.
\<close>

lemma generate_run_rows:
  assumes "returns (generate_run X rn e)"
  shows "\<exists>run_lib mat_hist lib.
           fst (run_loop X rn empty_lib [] e) = Inr (run_lib, mat_hist) \<and>
           fst (generate_run X rn e) = Inr lib \<and>
           length mat_hist = length rn \<and>
           scalar_rows (length rn) lib \<and>
           (inj_on (nucname X) (set (all_nucs mat_hist)) \<longrightarrow>
              (\<forall>nuc \<in> set (all_nucs mat_hist).
                 \<exists>h. lib (nucname X nuc) = Some h \<and>
                     (\<forall>i < length rn. map_of (mat_hist ! i) nuc = Some (h ! i))))"
proof -
  from assms obtain lib where lib: "fst (generate_run X rn e) = Inr lib"
    by (auto simp: returns_iff)
  from generate_run_success[OF lib] obtain run_lib mat_hist where
    rl: "run_loop X rn empty_lib [] e = (Inr (run_lib, mat_hist), snd (generate_run X rn e))"
    and asm: "assemble X run_lib mat_hist = Inr lib"
    by blast
  from run_loop_success[OF rl] have len: "length mat_hist = length rn" by auto
  have "scalar_rows (0 + length rn) run_lib"
    using run_loop_rows[OF rl empty_lib_rows] .
  then have rows: "scalar_rows (length rn) lib"
    using assemble_rows[OF asm] len by simp
  have vals: "\<exists>h. lib (nucname X nuc) = Some h \<and>
                  (\<forall>i < length rn. map_of (mat_hist ! i) nuc = Some (h ! i))"
    if "inj_on (nucname X) (set (all_nucs mat_hist))" "nuc \<in> set (all_nucs mat_hist)" for nuc
  proof -
    from assemble_nuclide[OF asm that(2,1)] obtain h where
      h: "history nuc mat_hist = Inr h" "lib (nucname X nuc) = Some h" by blast
    show ?thesis using h history_nth[OF h(1)] len by auto
  qed
  show ?thesis using rl lib len rows vals by auto
qed

lemma backfill_row:
  assumes "list_all (\<lambda>m. distinct (map fst m) \<and> inj_on nm (insert nuc (fst ` set m))) mats"
      and "k < length mats" and "map_of (mats ! k) nuc = Some vk" and "vk > thr"
      and "list_all (\<lambda>m. case map_of m nuc of None \<Rightarrow> True | Some x \<Rightarrow> x \<le> thr) (take k mats)"
      and pres: "list_all (\<lambda>m. map_of m nuc \<noteq> None) (drop k mats)"
  shows "\<exists>row. trans_matrix_of nm thr mats (nm nuc) = Some row \<and>
           length row = length mats \<and>
           (\<forall>j < k. row ! j = 0) \<and>
           (\<forall>j. k \<le> j \<and> j < length mats \<longrightarrow> map_of (mats ! j) nuc = Some (row ! j / 1000))"
proof -
  let ?f = "\<lambda>m. the (map_of m nuc) * 1000"
  let ?row = "replicate k 0 @ map ?f (drop k mats)"
  have tm: "trans_matrix_of nm thr mats (nm nuc) = Some ?row"
    using trans_matrix_backfill[OF assms] .
  have len: "length ?row = length mats" using assms(2) by simp
  have z: "\<forall>j < k. ?row ! j = 0" by (simp add: nth_append)
  have v: "map_of (mats ! j) nuc = Some (?row ! j / 1000)" if "k \<le> j" "j < length mats" for j
  proof -
    have lt: "j - k < length (drop k mats)" and eq: "drop k mats ! (j - k) = mats ! j"
      using that by simp_all
    from pres have "\<forall>n < length (drop k mats). map_of (drop k mats ! n) nuc \<noteq> None"
      by (simp only: list_all_length)
    then have "map_of (drop k mats ! (j - k)) nuc \<noteq> None" using lt by blast
    then have "map_of (mats ! j) nuc \<noteq> None" unfolding eq .
    then obtain x where x: "map_of (mats ! j) nuc = Some x" by blast
    have "?row ! j = ?f (mats ! j)"
      using that eq by (simp add: nth_append)
    then show ?thesis using x by simp
  qed
  show ?thesis using tm len z v by blast
qed

text \<open>
  Claim C6. Every nuclide kept in the output of a run of length \<open>n\<close> should have \<open>n\<close>
  entries, with zeros before the step at which it first exceeds the threshold. The code
  does fill in the zeros in the writer's transmutation matrix, but it misses its own
  target in two places. In the writer, a nuclide that is absent from the composition of
  a later step gets no entry for that step: for the two-step compositions \<open>mats_b\<close> the
  row of the first nuclide has one entry. In \<^verbatim>\<open>generate_run\<close>, a nuclide that is absent
  from the material of some step raises \<^verbatim>\<open>KeyError\<close>: for a three-step run in which a
  second nuclide appears at step 1, no library is returned.
\<close>

theorem vanished_nuclide_short_row:
  "trans_matrix_of (nucname stub_ext) (1 / 10) mats_a ''X'' = Some [0, 0, 200] \<and>
   length mats_a = 3 \<and>
   trans_matrix_of (nucname stub_ext) (1 / 10) mats_b ''U235'' = Some [500] \<and>
   trans_matrix_of (nucname stub_ext) (1 / 10) mats_b ''X'' = Some [0, 500] \<and>
   length mats_b = 2 \<and>
   raised (generate_run buildup_ext run_a fresh_engine) = Some KeyError \<and>
   map (map fst) (snd (projr (fst (run_loop buildup_ext run_a empty_lib [] fresh_engine)))) =
     [[922350], [922350, 942390], [922350, 942390]]"
  by code_simp


end
